theory Spec2Isabelle
  imports Main "HOL-Library.Word"
begin

unbundle bit_operations_syntax

section \<open>JavaScript values\<close>

text \<open>
  A JavaScript number is an IEEE 754 binary64 value; it is kept as its 64 bits.
  \<open>Number.isNaN\<close> and finiteness are read off the bits: with the sign bit masked away,
  the patterns above \<open>0x7FF0000000000000\<close> (infinity) are the NaNs and the ones below
  it are the finite numbers.
\<close>

type_synonym jsnum = "64 word"

definition isNaN :: "jsnum \<Rightarrow> bool" where
  "isNaN n \<longleftrightarrow> 0x7FF0000000000000 < (n AND 0x7FFFFFFFFFFFFFFF)"

definition isFinite :: "jsnum \<Rightarrow> bool" where
  "isFinite n \<longleftrightarrow> (n AND 0x7FFFFFFFFFFFFFFF) < 0x7FF0000000000000"

text \<open>
  The conversions \<open>Number(v)\<close> (string to number) and \<open>String(n)\<close> (number to string)
  are built into the language, not part of the program. They are a parameter of
  every function that calls them.
\<close>

record runtime =
  toNumber :: "string \<Rightarrow> jsnum"
  numToString :: "jsnum \<Rightarrow> string"

text \<open>The primitive values: \<open>undefined\<close>, \<open>null\<close>, booleans, numbers, strings.\<close>

datatype prim = Undefined | Null | Bool bool | Num jsnum | Str string

section \<open>parsePrimitive\<close>

text \<open>
  Lines 10-18. The checks are in the order of the source; neither \<open>Number\<close> nor
  \<open>String\<close> throws on the arguments they get here, so there is no error branch.
\<close>

definition parsePrimitive :: "runtime \<Rightarrow> string \<Rightarrow> prim" where
  "parsePrimitive R v =
     (if v = ''true'' then Bool True
      else if v = ''false'' then Bool False
      else if v = ''null'' then Null
      else if v = '''' then Str ''''
      else let n = toNumber R v in
           if \<not> isNaN n \<and> numToString R n = v then Num n else Str v)"

text \<open>
  A fragment of the real conversions, enough for the literals of the coercion table:
  \<open>42\<close> is \<open>0x4045000000000000\<close>, the double nearest to \<open>3.14\<close> is
  \<open>0x40091EB851EB851F\<close>, \<open>7\<close> is \<open>0x401C000000000000\<close>; every other string of
  the table is not a numeric literal and converts to NaN (\<open>0x7FF8000000000000\<close>).
\<close>

definition table_runtime :: runtime where
  "table_runtime =
     \<lparr> toNumber = (\<lambda>s. if s = ''42'' then 0x4045000000000000
                        else if s = ''3.14'' then 0x40091EB851EB851F
                        else if s = ''007'' \<or> s = ''7'' then 0x401C000000000000
                        else 0x7FF8000000000000),
       numToString = (\<lambda>n. if n = 0x4045000000000000 then ''42''
                           else if n = 0x40091EB851EB851F then ''3.14''
                           else if n = 0x401C000000000000 then ''7''
                           else ''NaN'') \<rparr>"

section \<open>Objects and arrays in a store\<close>

text \<open>
  \<open>setValueAtPath\<close> mutates the object it is given and moves a cursor \<open>cur\<close> through
  it, so objects live in a store: a list of cells, an address being an index into it.
  Allocation appends a cell. A plain object is its own properties in enumeration order;
  an array is its elements plus the properties that are not indices (JavaScript allows
  \<open>arr["y"] = v\<close>). A hole of a sparse array reads as \<open>undefined\<close> and is kept as
  \<open>undefined\<close>: the program never tells the two apart.
\<close>

type_synonym addr = nat

datatype jsval = Prim prim | Ref addr

datatype hobj =
    Object "(string \<times> jsval) list"
  | Array "jsval list" "(string \<times> jsval) list"

type_synonym heap = "hobj list"

datatype error = SyntaxError | TypeError | Unmodelled

text \<open>
  \<open>Unmodelled\<close> marks the three places where JavaScript leaves the plain reading and
  writing of own properties and the model does not follow it: the accessor
  \<open>__proto__\<close> (when the object has no own property of that name), the \<open>length\<close>
  of an array, and an address with no cell. There the program goes on (through
  \<open>__proto__\<close> it reaches the prototype object, which all objects share, and may
  write into it) and the model stops: a computation that ends in \<open>Unmodelled\<close> says
  nothing about the program, neither about its result nor about the store it leaves.
\<close>

text \<open>A path segment is \<open>string | number\<close>; a number is an array index.\<close>

datatype seg = Key string | Idx nat

definition digit_char :: "nat \<Rightarrow> char" where
  "digit_char d = char_of (48 + d)"

fun string_of_nat :: "nat \<Rightarrow> string" where
  "string_of_nat n =
     (if n < 10 then [digit_char n] else string_of_nat (n div 10) @ [digit_char (n mod 10)])"

declare string_of_nat.simps [simp del]

definition is_digit :: "char \<Rightarrow> bool" where
  "is_digit c \<longleftrightarrow> 48 \<le> (of_char c :: nat) \<and> (of_char c :: nat) \<le> 57"

definition nat_of_digits :: "string \<Rightarrow> nat" where
  "nat_of_digits s = foldl (\<lambda>n c. 10 * n + ((of_char c :: nat) - 48)) 0 s"

text \<open>The property name a segment stands for (\<open>ToPropertyKey\<close>).\<close>

fun prop_name :: "seg \<Rightarrow> string" where
  "prop_name (Key k) = k"
| "prop_name (Idx n) = string_of_nat n"

text \<open>
  On an array a segment is an element index when its name is the canonical decimal
  form of a number below \<open>2^32 - 1\<close>; otherwise it names an ordinary property.
\<close>

fun as_index :: "seg \<Rightarrow> nat option" where
  "as_index (Idx n) = (if n < 4294967295 then Some n else None)"
| "as_index (Key k) =
     (if k \<noteq> [] \<and> list_all is_digit k \<and> (k = ''0'' \<or> hd k \<noteq> CHR ''0'')
         \<and> nat_of_digits k < 4294967295
      then Some (nat_of_digits k) else None)"

text \<open>
  The own properties of an object are listed in the order in which JavaScript
  enumerates them (\<open>Object.entries\<close>, \<open>JSON.stringify\<close>, object spread): first the
  keys that are array indices, in ascending order, then the other keys in the order
  of their creation. Assignment to a property keeps that order: an existing key keeps
  its place (\<open>overwrite\<close>); a new key that is an array index goes after the index
  keys that are not greater (\<open>ins\<close>); any other new key goes last.
\<close>

fun overwrite :: "string \<Rightarrow> 'v \<Rightarrow> (string \<times> 'v) list \<Rightarrow> (string \<times> 'v) list" where
  "overwrite k v [] = []"
| "overwrite k v ((k', v') # ps) = (if k = k' then (k, v) # ps else (k', v') # overwrite k v ps)"

fun ins :: "nat \<Rightarrow> string \<Rightarrow> 'v \<Rightarrow> (string \<times> 'v) list \<Rightarrow> (string \<times> 'v) list" where
  "ins i k v [] = [(k, v)]"
| "ins i k v ((k', v') # ps) =
     (case as_index (Key k') of
        None \<Rightarrow> (k, v) # (k', v') # ps
      | Some i' \<Rightarrow> if i < i' then (k, v) # (k', v') # ps else (k', v') # ins i k v ps)"

definition upd :: "string \<Rightarrow> 'v \<Rightarrow> (string \<times> 'v) list \<Rightarrow> (string \<times> 'v) list" where
  "upd k v ps =
     (if k \<in> set (map fst ps) then overwrite k v ps
      else case as_index (Key k) of
             None \<Rightarrow> ps @ [(k, v)]
           | Some i \<Rightarrow> ins i k v ps)"

text \<open>Assignment to an element: beyond the end the array is extended with holes.\<close>

definition set_elem :: "jsval list \<Rightarrow> nat \<Rightarrow> jsval \<Rightarrow> jsval list" where
  "set_elem es i x =
     (if i < length es then es[i := x]
      else es @ replicate (i - length es) (Prim Undefined) @ [x])"

definition own_prop :: "(string \<times> jsval) list \<Rightarrow> string \<Rightarrow> error + jsval" where
  "own_prop ps k =
     (case map_of ps k of
        Some v \<Rightarrow> Inr v
      | None \<Rightarrow> if k = ''__proto__'' then Inl Unmodelled else Inr (Prim Undefined))"

definition put_prop :: "(string \<times> jsval) list \<Rightarrow> string \<Rightarrow> jsval \<Rightarrow> error + (string \<times> jsval) list" where
  "put_prop ps k x =
     (if k = ''__proto__'' \<and> map_of ps k = None then Inl Unmodelled else Inr (upd k x ps))"

text \<open>
  \<open>cur[seg]\<close> as a read. On \<open>undefined\<close> and \<open>null\<close> it throws. On another primitive
  JavaScript looks into the wrapper's prototype (or, for a string, at a character or the
  length); what it finds there is never an object, which is all the program asks of
  it, so the model answers \<open>undefined\<close>.
\<close>

definition js_get :: "heap \<Rightarrow> jsval \<Rightarrow> seg \<Rightarrow> error + jsval" where
  "js_get h cur s =
     (case cur of
        Prim Undefined \<Rightarrow> Inl TypeError
      | Prim Null \<Rightarrow> Inl TypeError
      | Prim _ \<Rightarrow> if prop_name s = ''__proto__'' then Inl Unmodelled else Inr (Prim Undefined)
      | Ref a \<Rightarrow>
          if length h \<le> a then Inl Unmodelled
          else (case h ! a of
                  Object ps \<Rightarrow> own_prop ps (prop_name s)
                | Array es ps \<Rightarrow>
                    (case as_index s of
                       Some i \<Rightarrow> Inr (if i < length es then es ! i else Prim Undefined)
                     | None \<Rightarrow>
                         if prop_name s = ''length'' then Inl Unmodelled
                         else own_prop ps (prop_name s))))"

text \<open>
  \<open>cur[seg] = x\<close>. The file is an ES module, hence strict code: assigning to a
  property of a primitive throws a TypeError. On error the store is as it was.
\<close>

definition js_set :: "heap \<Rightarrow> jsval \<Rightarrow> seg \<Rightarrow> jsval \<Rightarrow> error + heap" where
  "js_set h cur s x =
     (case cur of
        Prim Undefined \<Rightarrow> Inl TypeError
      | Prim Null \<Rightarrow> Inl TypeError
      | Prim _ \<Rightarrow> if prop_name s = ''__proto__'' then Inl Unmodelled else Inl TypeError
      | Ref a \<Rightarrow>
          if length h \<le> a then Inl Unmodelled
          else (case h ! a of
                  Object ps \<Rightarrow>
                    (case put_prop ps (prop_name s) x of
                       Inl e \<Rightarrow> Inl e
                     | Inr ps' \<Rightarrow> Inr (h[a := Object ps']))
                | Array es ps \<Rightarrow>
                    (case as_index s of
                       Some i \<Rightarrow> Inr (h[a := Array (set_elem es i x) ps])
                     | None \<Rightarrow>
                         if prop_name s = ''length'' then Inl Unmodelled
                         else (case put_prop ps (prop_name s) x of
                                 Inl e \<Rightarrow> Inl e
                               | Inr ps' \<Rightarrow> Inr (h[a := Array es ps'])))))"

definition Array_isArray :: "heap \<Rightarrow> jsval \<Rightarrow> bool" where
  "Array_isArray h v =
     (case v of
        Ref a \<Rightarrow> a < length h \<and> (case h ! a of Array _ _ \<Rightarrow> True | Object _ \<Rightarrow> False)
      | Prim _ \<Rightarrow> False)"

definition is_plain_object :: "heap \<Rightarrow> jsval \<Rightarrow> bool" where
  "is_plain_object h v =
     (case v of
        Ref a \<Rightarrow> a < length h \<and> (case h ! a of Object _ \<Rightarrow> True | Array _ _ \<Rightarrow> False)
      | Prim _ \<Rightarrow> False)"

text \<open>\<open>v == null\<close> holds of \<open>null\<close> and \<open>undefined\<close>.\<close>

definition nullish :: "jsval \<Rightarrow> bool" where
  "nullish v \<longleftrightarrow> v = Prim Undefined \<or> v = Prim Null"

text \<open>\<open>typeof v === "object"\<close> holds of objects, of arrays and of \<open>null\<close>.\<close>

definition typeof_object :: "jsval \<Rightarrow> bool" where
  "typeof_object v \<longleftrightarrow> (case v of Ref _ \<Rightarrow> True | Prim p \<Rightarrow> p = Null)"

text \<open>\<open>typeof nextSeg === "number" ? [] : {}\<close>: a fresh container.\<close>

fun container :: "heap \<Rightarrow> seg \<Rightarrow> jsval \<times> heap" where
  "container h (Idx _) = (Ref (length h), h @ [Array [] []])"
| "container h (Key _) = (Ref (length h), h @ [Object []])"

section \<open>setValueAtPath\<close>

text \<open>
  Lines 29-52: the loop over all segments but the last, then the assignment at the
  last one. \<open>walk h cur path\<close> runs the loop from the iteration that looks at the head
  of \<open>path\<close>, with the cursor at \<open>cur\<close>. A computation yields the exception or the
  result, and the store it leaves in either case.

  Line 36 assigns a fresh array to the local variable \<open>cur\<close> only: the array is
  allocated, and nothing in the store refers to it.
\<close>

fun walk :: "heap \<Rightarrow> jsval \<Rightarrow> seg list \<Rightarrow> jsval \<Rightarrow> (error + unit) \<times> heap" where
  "walk h cur [] replacement = (Inr (), h)"
| "walk h cur [lastSeg] replacement =
     (case js_set h cur lastSeg replacement of
        Inl e \<Rightarrow> (Inl e, h)
      | Inr h' \<Rightarrow> (Inr (), h'))"
| "walk h cur (Idx n # nextSeg # rest) replacement =
     (let (cur1, h1) = (if \<not> Array_isArray h cur then (Ref (length h), h @ [Array [] []])
                        else (cur, h))
      in case js_get h1 cur1 (Idx n) of
           Inl e \<Rightarrow> (Inl e, h1)
         | Inr v \<Rightarrow>
             if nullish v then
               (let (c, h2) = container h1 nextSeg
                in case js_set h2 cur1 (Idx n) c of
                     Inl e \<Rightarrow> (Inl e, h2)
                   | Inr h3 \<Rightarrow>
                       (case js_get h3 cur1 (Idx n) of
                          Inl e \<Rightarrow> (Inl e, h3)
                        | Inr v' \<Rightarrow> walk h3 v' (nextSeg # rest) replacement))
             else walk h1 v (nextSeg # rest) replacement)"
| "walk h cur (Key k # nextSeg # rest) replacement =
     (case js_get h cur (Key k) of
        Inl e \<Rightarrow> (Inl e, h)
      | Inr v \<Rightarrow>
          if nullish v \<or> \<not> typeof_object v then
            (let (c, h2) = container h nextSeg
             in case js_set h2 cur (Key k) c of
                  Inl e \<Rightarrow> (Inl e, h2)
                | Inr h3 \<Rightarrow>
                    (case js_get h3 cur (Key k) of
                       Inl e \<Rightarrow> (Inl e, h3)
                     | Inr v' \<Rightarrow> walk h3 v' (nextSeg # rest) replacement))
          else walk h v (nextSeg # rest) replacement)"

text \<open>
  Lines 24-54. The path may be \<open>undefined\<close> (\<open>None\<close>). With a non-empty path the value
  returned is \<open>obj\<close>, the reference that was passed in.
\<close>

definition setValueAtPath ::
    "heap \<Rightarrow> jsval \<Rightarrow> seg list option \<Rightarrow> jsval \<Rightarrow> (error + jsval) \<times> heap" where
  "setValueAtPath h obj path replacement =
     (case path of
        None \<Rightarrow> (Inr replacement, h)
      | Some [] \<Rightarrow> (Inr replacement, h)
      | Some (s # ss) \<Rightarrow>
          (case walk h obj (s # ss) replacement of
             (Inl e, h') \<Rightarrow> (Inl e, h')
           | (Inr _, h') \<Rightarrow> (Inr obj, h')))"

section \<open>JSON text, JSON.stringify and JSON.parse\<close>

text \<open>
  The document is a string of JSON. Parsing and printing are built into the language, so
  the text is not modelled character by character: a text that \<open>JSON.parse\<close> accepts
  is kept as its syntax tree, a \<open>json\<close> tree with the members of an object in the
  order of the text (a key may occur twice) and a number literal as the number it is
  read as. The empty string is \<open>Blank\<close>; any other text that \<open>JSON.parse\<close> rejects
  is \<open>Malformed\<close>.
\<close>

datatype json =
    JNull
  | JBool bool
  | JNum jsnum
  | JStr string
  | JArr "json list"
  | JObj "(string \<times> json) list"

datatype doc = Blank | Malformed string | Json json

fun sequence :: "(error + 'a) list \<Rightarrow> error + 'a list" where
  "sequence [] = Inr []"
| "sequence (x # xs) =
     (case x of
        Inl e \<Rightarrow> Inl e
      | Inr y \<Rightarrow> (case sequence xs of Inl e \<Rightarrow> Inl e | Inr ys \<Rightarrow> Inr (y # ys)))"

text \<open>
  \<open>JSON.stringify\<close>, as the tree of the text it prints. \<open>undefined\<close> has no rendering
  (\<open>None\<close>): as a member of an object it is left out, as an element of an array it is
  printed \<open>null\<close>. A number that is not finite is printed \<open>null\<close>, and negative zero
  (the bits \<open>0x8000000000000000\<close>) is printed \<open>0\<close>. Of an array only the
  elements are printed, not its other properties. On a cyclic structure
  \<open>JSON.stringify\<close> throws a TypeError; the model descends into objects with fuel, and
  with more fuel than the store has cells it runs out only on a cycle.
\<close>

definition num_json :: "jsnum \<Rightarrow> json" where
  "num_json n =
     (if isFinite n then JNum (if n = 0x8000000000000000 then 0 else n) else JNull)"

definition prim_json :: "prim \<Rightarrow> json option" where
  "prim_json p =
     (case p of
        Undefined \<Rightarrow> None
      | Null \<Rightarrow> Some JNull
      | Bool b \<Rightarrow> Some (JBool b)
      | Num n \<Rightarrow> Some (num_json n)
      | Str s \<Rightarrow> Some (JStr s))"

definition members :: "(string \<times> json option) list \<Rightarrow> (string \<times> json) list" where
  "members krs = concat (map (\<lambda>(k, r). case r of None \<Rightarrow> [] | Some j \<Rightarrow> [(k, j)]) krs)"

definition elements :: "json option list \<Rightarrow> json list" where
  "elements rs = map (\<lambda>r. case r of None \<Rightarrow> JNull | Some j \<Rightarrow> j) rs"

fun ser :: "nat \<Rightarrow> heap \<Rightarrow> jsval \<Rightarrow> error + json option" where
  "ser f h (Prim p) = Inr (prim_json p)"
| "ser 0 h (Ref a) = Inl TypeError"
| "ser (Suc f) h (Ref a) =
     (if length h \<le> a then Inl Unmodelled
      else case h ! a of
             Object ps \<Rightarrow>
               (case sequence (map (\<lambda>(k, v). case ser f h v of
                                               Inl e \<Rightarrow> Inl e
                                             | Inr r \<Rightarrow> Inr (k, r)) ps) of
                  Inl e \<Rightarrow> Inl e
                | Inr krs \<Rightarrow> Inr (Some (JObj (members krs))))
           | Array es ps \<Rightarrow>
               (case sequence (map (ser f h) es) of
                  Inl e \<Rightarrow> Inl e
                | Inr rs \<Rightarrow> Inr (Some (JArr (elements rs)))))"

definition JSON_stringify :: "heap \<Rightarrow> jsval \<Rightarrow> error + json option" where
  "JSON_stringify h v = ser (Suc (length h)) h v"

text \<open>
  \<open>JSON.parse\<close> builds the value in fresh cells, the members before their container.
  The members of an object are defined one by one in the order of the text, each by
  an assignment to the object under construction (\<open>build_props\<close> carries the
  properties defined so far): a key that occurs twice keeps its first place and its
  last value, and the properties end up in enumeration order.
\<close>

fun build :: "heap \<Rightarrow> json \<Rightarrow> jsval \<times> heap"
  and build_list :: "heap \<Rightarrow> json list \<Rightarrow> jsval list \<times> heap"
  and build_props ::
    "heap \<Rightarrow> (string \<times> jsval) list \<Rightarrow> (string \<times> json) list \<Rightarrow> (string \<times> jsval) list \<times> heap" where
  "build h JNull = (Prim Null, h)"
| "build h (JBool b) = (Prim (Bool b), h)"
| "build h (JNum n) = (Prim (Num n), h)"
| "build h (JStr s) = (Prim (Str s), h)"
| "build h (JArr xs) =
     (case build_list h xs of (vs, h') \<Rightarrow> (Ref (length h'), h' @ [Array vs []]))"
| "build h (JObj ms) =
     (case build_props h [] ms of (qs, h') \<Rightarrow> (Ref (length h'), h' @ [Object qs]))"
| "build_list h [] = ([], h)"
| "build_list h (x # xs) =
     (case build h x of (v, h1) \<Rightarrow>
        (case build_list h1 xs of (vs, h2) \<Rightarrow> (v # vs, h2)))"
| "build_props h acc [] = (acc, h)"
| "build_props h acc ((k, x) # ms) =
     (case build h x of (v, h1) \<Rightarrow> build_props h1 (upd k v acc) ms)"

definition JSON_parse :: "heap \<Rightarrow> doc \<Rightarrow> (error + jsval) \<times> heap" where
  "JSON_parse h t =
     (case t of
        Blank \<Rightarrow> (Inl SyntaxError, h)
      | Malformed _ \<Rightarrow> (Inl SyntaxError, h)
      | Json j \<Rightarrow> (case build h j of (v, h') \<Rightarrow> (Inr v, h')))"

text \<open>
  Line 154, \<open>JSON.parse(JSON.stringify(root))\<close>. When \<open>JSON.stringify\<close> returns
  \<open>undefined\<close>, \<open>JSON.parse\<close> rejects it.
\<close>

definition clone :: "heap \<Rightarrow> jsval \<Rightarrow> (error + jsval) \<times> heap" where
  "clone h root =
     (case JSON_stringify h root of
        Inl e \<Rightarrow> (Inl e, h)
      | Inr None \<Rightarrow> (Inl SyntaxError, h)
      | Inr (Some j) \<Rightarrow> JSON_parse h (Json j))"

section \<open>The node, the form and the two stores\<close>

text \<open>
  Modelled from the spec: the type \<open>NodeData\<close> (imported from \<open>types/graph\<close>, whose
  declaration is not among the sources). A row has a key (absent, \<open>None\<close>, for a node
  that is a single scalar), a scalar value and a type tag. A node is its rows and its
  path; \<open>setValueAtPath\<close> allows the path to be \<open>undefined\<close>.
\<close>

record row =
  row_key :: "string option"
  row_value :: prim
  row_type :: string

record node =
  node_text :: "row list"
  node_path :: "seg list option"

text \<open>
  Modelled from the spec: the selection store (\<open>useGraph\<close>, whose source is not among
  the sources) holds the selected node and offers an update operation that takes a
  full replacement node. \<open>handleSave\<close> looks for that operation under four names;
  each name is missing, or holds something that is not a function, or holds the
  update operation.
\<close>

datatype slot = Missing | NotAFunction | Setter

record graph_store =
  selectedNode :: "node option"
  updateSelectedNode :: slot
  setSelectedNode :: slot
  updateNode :: slot
  setNode :: slot

text \<open>
  The state the component works on: its two React state variables, the selection store
  and the document store. Modelled from the spec: the document store (\<open>useJson\<close>,
  whose source is not among the sources) holds the text of the document; \<open>getJson\<close>
  reads it and \<open>setJson\<close> replaces it.
\<close>

record session =
  isEditing :: bool
  form :: "(string \<times> string) list"
  useGraph :: graph_store
  useJson :: doc

text \<open>\<open>String(v)\<close> of a primitive.\<close>

definition js_String :: "runtime \<Rightarrow> prim \<Rightarrow> string" where
  "js_String R p =
     (case p of
        Undefined \<Rightarrow> ''undefined''
      | Null \<Rightarrow> ''null''
      | Bool b \<Rightarrow> (if b then ''true'' else ''false'')
      | Num n \<Rightarrow> numToString R n
      | Str s \<Rightarrow> s)"

text \<open>\<open>String(v ?? "")\<close>.\<close>

definition String_or_empty :: "runtime \<Rightarrow> prim \<Rightarrow> string" where
  "String_or_empty R p = (if p = Undefined \<or> p = Null then '''' else js_String R p)"

text \<open>A key is truthy when it is present and not the empty string.\<close>

definition truthy_key :: "string option \<Rightarrow> bool" where
  "truthy_key k \<longleftrightarrow> (case k of None \<Rightarrow> False | Some s \<Rightarrow> s \<noteq> '''')"

text \<open>
  \<open>obj[k] = v\<close> on a plain object made by \<open>{}\<close>, for a primitive \<open>v\<close>: under the name
  \<open>__proto__\<close> the assignment goes to the inherited accessor and creates no property.
\<close>

definition rec_set :: "string \<Rightarrow> 'v \<Rightarrow> (string \<times> 'v) list \<Rightarrow> (string \<times> 'v) list" where
  "rec_set k v m = (if k = ''__proto__'' then m else upd k v m)"

definition editable :: "row \<Rightarrow> bool" where
  "editable r \<longleftrightarrow> row_type r \<noteq> ''array'' \<and> row_type r \<noteq> ''object'' \<and> truthy_key (row_key r)"

text \<open>Lines 84-103, the effect that fills the form.\<close>

definition effect :: "runtime \<Rightarrow> session \<Rightarrow> session" where
  "effect R st =
     (case selectedNode (useGraph st) of
        None \<Rightarrow> st\<lparr>form := []\<rparr>
      | Some nodeData \<Rightarrow>
          if \<not> isEditing st then st\<lparr>form := []\<rparr>
          else if length (node_text nodeData) = 1 \<and> \<not> truthy_key (row_key (node_text nodeData ! 0))
          then st\<lparr>form := [('''', String_or_empty R (row_value (node_text nodeData ! 0)))]\<rparr>
          else st\<lparr>form :=
                   foldl (\<lambda>values r.
                            if editable r
                            then rec_set (the (row_key r)) (String_or_empty R (row_value r)) values
                            else values)
                         [] (node_text nodeData)\<rparr>)"

text \<open>
  React runs the effect after a render in which one of its dependencies,
  \<open>isEditing\<close> and \<open>nodeData\<close>, has changed. React compares \<open>nodeData\<close> by
  identity and the model by value; the two differ only when the update operation
  stores a node equal to the one selected, while \<open>isEditing\<close> stays as it is.
\<close>

definition rerender :: "runtime \<Rightarrow> session \<Rightarrow> session \<Rightarrow> session" where
  "rerender R old new =
     (if isEditing new \<noteq> isEditing old
         \<or> selectedNode (useGraph new) \<noteq> selectedNode (useGraph old)
      then effect R new else new)"

definition startEditing :: "session \<Rightarrow> session" where
  "startEditing st = st\<lparr>isEditing := True\<rparr>"

definition cancelEditing :: "session \<Rightarrow> session" where
  "cancelEditing st = st\<lparr>isEditing := False\<rparr>"

definition handleChange :: "string \<Rightarrow> string \<Rightarrow> session \<Rightarrow> session" where
  "handleChange k v st = st\<lparr>form := upd k v (form st)\<rparr>"

section \<open>handleSave\<close>

text \<open>Lines 116-125: the rows with the values of the form.\<close>

definition new_row :: "(string \<times> string) list \<Rightarrow> row \<Rightarrow> row" where
  "new_row fm r =
     (if editable r \<and> map_of fm (the (row_key r)) \<noteq> None
      then r\<lparr>row_value := Str (the (map_of fm (the (row_key r))))\<rparr>
      else if row_key r = None \<and> map_of fm '''' \<noteq> None
      then r\<lparr>row_value := Str (the (map_of fm ''''))\<rparr>
      else r)"

definition newRows :: "(string \<times> string) list \<Rightarrow> node \<Rightarrow> row list" where
  "newRows fm nodeData = map (new_row fm) (node_text nodeData)"

text \<open>Lines 128-132: the first of the four names that is not missing is the updater.\<close>

definition updater :: "graph_store \<Rightarrow> slot" where
  "updater g =
     (if updateSelectedNode g \<noteq> Missing then updateSelectedNode g
      else if setSelectedNode g \<noteq> Missing then setSelectedNode g
      else if updateNode g \<noteq> Missing then updateNode g
      else setNode g)"

definition update_store :: "(string \<times> string) list \<Rightarrow> node \<Rightarrow> graph_store \<Rightarrow> graph_store" where
  "update_store fm nodeData g =
     (if updater g = Setter
      then g\<lparr>selectedNode := Some (nodeData\<lparr>node_text := newRows fm nodeData\<rparr>)\<rparr>
      else g)"

text \<open>
  Lines 140-151: the replacement, a scalar for a node that is a single keyless row,
  otherwise a fresh object with one coerced entry for each entry of the form.
\<close>

definition replacement_entries :: "runtime \<Rightarrow> (string \<times> string) list \<Rightarrow> (string \<times> prim) list" where
  "replacement_entries R fm =
     foldl (\<lambda>obj (k, v). rec_set k (parsePrimitive R v) obj) [] fm"

definition build_replacement ::
    "runtime \<Rightarrow> (string \<times> string) list \<Rightarrow> node \<Rightarrow> heap \<Rightarrow> jsval \<times> heap" where
  "build_replacement R fm nodeData h =
     (if length (node_text nodeData) = 1 \<and> row_key (node_text nodeData ! 0) = None
      then (Prim (parsePrimitive R
                    (case map_of fm '''' of
                       Some s \<Rightarrow> s
                     | None \<Rightarrow> String_or_empty R (row_value (newRows fm nodeData ! 0)))), h)
      else (Ref (length h),
            h @ [Object (map (\<lambda>(k, p). (k, Prim p)) (replacement_entries R fm))]))"

text \<open>
  Lines 136-160, the body of the \<open>try\<close>: the new text of the document, or the
  exception that the \<open>catch\<close> receives. The values live in a store of their own,
  empty at the start.
\<close>

definition persist :: "runtime \<Rightarrow> (string \<times> string) list \<Rightarrow> node \<Rightarrow> doc \<Rightarrow> error + doc" where
  "persist R fm nodeData raw =
     (case (if raw = Blank then (Inr (Ref 0), [Object []]) else JSON_parse [] raw) of
        (Inl e, _) \<Rightarrow> Inl e
      | (Inr root, h1) \<Rightarrow>
          (case build_replacement R fm nodeData h1 of
             (replacement, h2) \<Rightarrow>
               (case clone h2 root of
                  (Inl e, _) \<Rightarrow> Inl e
                | (Inr newRoot, h3) \<Rightarrow>
                    (case setValueAtPath h3 newRoot (node_path nodeData) replacement of
                       (Inl e, _) \<Rightarrow> Inl e
                     | (Inr final, h4) \<Rightarrow>
                         (let toSave = (if node_path nodeData \<noteq> None \<and> node_path nodeData \<noteq> Some []
                                        then final else replacement)
                          in case JSON_stringify h4 toSave of
                               Inl e \<Rightarrow> Inl e
                             | Inr None \<Rightarrow> Inr Blank
                             | Inr (Some j) \<Rightarrow> Inr (Json j))))))"

text \<open>
  Lines 112-169. Without a node nothing happens. Otherwise the selection store is
  updated, then the text is persisted inside \<open>try\<close> (an exception leaves the document
  store as it was), then editing stops.
\<close>

definition handleSave :: "runtime \<Rightarrow> session \<Rightarrow> session" where
  "handleSave R st =
     (case selectedNode (useGraph st) of
        None \<Rightarrow> st
      | Some nodeData \<Rightarrow>
          (let st1 = st\<lparr>useGraph := update_store (form st) nodeData (useGraph st)\<rparr>;
               st2 = (case persist R (form st) nodeData (useJson st1) of
                        Inl e \<Rightarrow> st1
                      | Inr t \<Rightarrow> st1\<lparr>useJson := t\<rparr>)
           in st2\<lparr>isEditing := False\<rparr>))"

text \<open>The three buttons: the handler, then the render that follows it.\<close>

definition start :: "runtime \<Rightarrow> session \<Rightarrow> session" where
  "start R st = rerender R st (startEditing st)"

definition cancel :: "runtime \<Rightarrow> session \<Rightarrow> session" where
  "cancel R st = rerender R st (cancelEditing st)"

definition save :: "runtime \<Rightarrow> session \<Rightarrow> session" where
  "save R st = rerender R st (handleSave R st)"

section \<open>Sample nodes and sessions\<close>

text \<open>
  A selection store with the update operation under the name \<open>setSelectedNode\<close>, a
  row holding a string, and two sessions: one in view mode on an object with the
  members \<open>""\<close> and \<open>"a"\<close>, one in edit mode whose document text is malformed and
  whose form has a new value for the member \<open>"a"\<close>.
\<close>

definition sample_graph :: "node \<Rightarrow> graph_store" where
  "sample_graph nodeData =
     \<lparr> selectedNode = Some nodeData, updateSelectedNode = Missing, setSelectedNode = Setter,
       updateNode = Missing, setNode = Missing \<rparr>"

definition string_row :: "string option \<Rightarrow> string \<Rightarrow> row" where
  "string_row k v = \<lparr> row_key = k, row_value = Str v, row_type = ''string'' \<rparr>"

definition view_state :: session where
  "view_state =
     \<lparr> isEditing = False, form = [],
       useGraph = sample_graph \<lparr> node_text = [string_row (Some '''') ''u'', string_row (Some ''a'') ''v''],
                                 node_path = Some [] \<rparr>,
       useJson = Json (JObj [('''', JStr ''u''), (''a'', JStr ''v'')]) \<rparr>"

definition broken_state :: session where
  "broken_state =
     \<lparr> isEditing = True, form = [(''a'', ''new'')],
       useGraph = sample_graph \<lparr> node_text = [string_row (Some ''a'') ''old''], node_path = Some [] \<rparr>,
       useJson = Malformed ''{'' \<rparr>"

section \<open>Invariants of the store\<close>

text \<open>
  A value is fresh from address \<open>n\<close> on when it is a primitive or refers to a cell at
  \<open>n\<close> or beyond; a store is closed above \<open>n\<close> when the cells from \<open>n\<close> on hold fresh
  values only.
\<close>

definition fresh :: "nat \<Rightarrow> jsval \<Rightarrow> bool" where
  "fresh n v = (case v of Ref a \<Rightarrow> n \<le> a | Prim _ \<Rightarrow> True)"

definition refs_of :: "hobj \<Rightarrow> jsval list" where
  "refs_of c = (case c of Object ps \<Rightarrow> map snd ps | Array es ps \<Rightarrow> es @ map snd ps)"

definition closed_above :: "nat \<Rightarrow> heap \<Rightarrow> bool" where
  "closed_above n h = (\<forall>a. n \<le> a \<and> a < length h \<longrightarrow> list_all (fresh n) (refs_of (h ! a)))"

text \<open>
  A value is below \<open>b\<close> when it is a primitive or refers to a cell under the address
  \<open>b\<close>. A segment is plain when its name is neither \<open>__proto__\<close> nor \<open>length\<close>, a
  path when all its segments are. A store is inside itself from address \<open>n\<close> on when
  the cells from \<open>n\<close> on refer to cells of the store only.
\<close>

definition below :: "nat \<Rightarrow> jsval \<Rightarrow> bool" where
  "below b v = (case v of Ref a \<Rightarrow> a < b | Prim _ \<Rightarrow> True)"




text \<open>
  \<open>rep h v j\<close>: in the store \<open>h\<close> the value \<open>v\<close> is the tree \<open>j\<close>, member by
  member in the order of the tree, laid out as \<open>JSON.parse\<close> builds it, every member
  at a lower address than its container.
\<close>

fun rep :: "heap \<Rightarrow> jsval \<Rightarrow> json \<Rightarrow> bool"
  and rep_list :: "heap \<Rightarrow> nat \<Rightarrow> jsval list \<Rightarrow> json list \<Rightarrow> bool"
  and rep_props :: "heap \<Rightarrow> nat \<Rightarrow> (string \<times> jsval) list \<Rightarrow> (string \<times> json) list \<Rightarrow> bool" where
  "rep h v JNull = (v = Prim Null)"
| "rep h v (JBool b) = (v = Prim (Bool b))"
| "rep h v (JNum n) = (v = Prim (Num n))"
| "rep h v (JStr s) = (v = Prim (Str s))"
| "rep h v (JArr xs) =
     (case v of
        Ref a \<Rightarrow> a < length h \<and>
                 (case h ! a of Array es ps \<Rightarrow> ps = [] \<and> rep_list h a es xs | Object _ \<Rightarrow> False)
      | Prim _ \<Rightarrow> False)"
| "rep h v (JObj ms) =
     (case v of
        Ref a \<Rightarrow> a < length h \<and>
                 (case h ! a of Object ps \<Rightarrow> rep_props h a ps ms | Array _ _ \<Rightarrow> False)
      | Prim _ \<Rightarrow> False)"
| "rep_list h b es [] = (es = [])"
| "rep_list h b es (x # xs) =
     (case es of
        [] \<Rightarrow> False
      | e # es' \<Rightarrow> below b e \<and> rep h e x \<and> rep_list h b es' xs)"
| "rep_props h b ps [] = (ps = [])"
| "rep_props h b ps ((k, x) # ms) =
     (case ps of
        [] \<Rightarrow> False
      | (k', e) # ps' \<Rightarrow> k' = k \<and> below b e \<and> rep h e x \<and> rep_props h b ps' ms)"

text \<open>
  The enumeration order as a property of a list of properties: every key is
  different from the keys after it, and a key that is an array index has before it
  only index keys that are not greater. Every list made by \<open>upd\<close> from the empty
  list has it.
\<close>

definition precedes :: "string \<Rightarrow> string \<Rightarrow> bool" where
  "precedes k k' \<longleftrightarrow>
     k \<noteq> k' \<and> (case as_index (Key k') of
                  None \<Rightarrow> True
                | Some i' \<Rightarrow> (case as_index (Key k) of None \<Rightarrow> False | Some i \<Rightarrow> i \<le> i'))"

definition enumerated :: "(string \<times> 'v) list \<Rightarrow> bool" where
  "enumerated ps = sorted_wrt precedes (map fst ps)"

text \<open>
  The value that \<open>JSON.parse\<close> reads from the text \<open>j\<close>, as a tree: the members of
  every object in enumeration order, a key that the text has twice once, with its
  last value. Two texts denote the same JSON value when they have the same tree.
\<close>

fun parsed :: "json \<Rightarrow> json"
  and parsed_list :: "json list \<Rightarrow> json list"
  and parsed_props :: "(string \<times> json) list \<Rightarrow> (string \<times> json) list \<Rightarrow> (string \<times> json) list" where
  "parsed JNull = JNull"
| "parsed (JBool b) = JBool b"
| "parsed (JNum n) = JNum n"
| "parsed (JStr s) = JStr s"
| "parsed (JArr xs) = JArr (parsed_list xs)"
| "parsed (JObj ms) = JObj (parsed_props [] ms)"
| "parsed_list [] = []"
| "parsed_list (x # xs) = parsed x # parsed_list xs"
| "parsed_props acc [] = acc"
| "parsed_props acc ((k, x) # ms) = parsed_props (upd k (parsed x) acc) ms"

text \<open>
  What \<open>JSON.stringify\<close> prints for a value that is the tree \<open>j\<close>: the same tree,
  with \<open>null\<close> for every number that is not finite (a number literal too large for a
  finite number is read as infinity) and \<open>0\<close> for negative zero. A text \<open>j\<close> with
  \<open>printed j = j\<close> is one whose numbers are all printed as they are.
\<close>

fun printed :: "json \<Rightarrow> json"
  and printed_list :: "json list \<Rightarrow> json list"
  and printed_props :: "(string \<times> json) list \<Rightarrow> (string \<times> json) list" where
  "printed JNull = JNull"
| "printed (JBool b) = JBool b"
| "printed (JNum n) = num_json n"
| "printed (JStr s) = JStr s"
| "printed (JArr xs) = JArr (printed_list xs)"
| "printed (JObj ms) = JObj (printed_props ms)"
| "printed_list [] = []"
| "printed_list (x # xs) = printed x # printed_list xs"
| "printed_props [] = []"
| "printed_props ((k, x) # ms) = (k, printed x) # printed_props ms"

section \<open>The value of a document at a path\<close>

text \<open>
  A string segment selects a member of an object, a number segment an element of an
  array (an index below \<open>2^32 - 1\<close>, as every index of an array is).
\<close>

fun lookup_seg :: "json \<Rightarrow> seg \<Rightarrow> json option" where
  "lookup_seg (JObj ms) (Key k) = map_of ms k"
| "lookup_seg (JArr xs) (Idx i) = (if i < length xs \<and> i < 4294967295 then Some (xs ! i) else None)"
| "lookup_seg _ _ = None"

fun get_path :: "json \<Rightarrow> seg list \<Rightarrow> json option" where
  "get_path j [] = Some j"
| "get_path j (s # ss) = (case lookup_seg j s of None \<Rightarrow> None | Some c \<Rightarrow> get_path c ss)"

section \<open>A save that changes nothing\<close>

text \<open>
  Two values print alike when they are equal or refer to cells with the same content;
  two cells are similar when they have the same shape and hold, place by place, values
  that print alike.
\<close>

definition veq :: "heap \<Rightarrow> jsval \<Rightarrow> jsval \<Rightarrow> bool" where
  "veq h v v' \<longleftrightarrow>
     v = v' \<or> (case (v, v') of
                 (Ref x, Ref y) \<Rightarrow> x < length h \<and> y < length h \<and> h ! x = h ! y
               | _ \<Rightarrow> False)"

definition sim :: "heap \<Rightarrow> hobj \<Rightarrow> hobj \<Rightarrow> bool" where
  "sim h c c' =
     (case (c, c') of
        (Object ps, Object ps') \<Rightarrow>
          map fst ps = map fst ps' \<and> list_all2 (veq h) (map snd ps) (map snd ps')
      | (Array es _, Array es' _) \<Rightarrow> list_all2 (veq h) es es'
      | _ \<Rightarrow> False)"

text \<open>
  The scalar a JSON value is, if it is one. The members that the rows of a node stand
  for: the object that has, for each row in turn, the row's value under the row's
  key. A node's rows agree with a JSON value when the node is a single keyless row
  and the value is that row's scalar, or the value is an object whose members are
  scalars and are the members the rows stand for.
\<close>

fun scalar_of :: "json \<Rightarrow> prim option" where
  "scalar_of JNull = Some Null"
| "scalar_of (JBool b) = Some (Bool b)"
| "scalar_of (JNum n) = Some (Num n)"
| "scalar_of (JStr s) = Some (Str s)"
| "scalar_of (JArr _) = None"
| "scalar_of (JObj _) = None"

definition row_members :: "row list \<Rightarrow> (string \<times> prim) list" where
  "row_members rows = foldl (\<lambda>acc r. upd (the (row_key r)) (row_value r) acc) [] rows"

definition node_agrees :: "row list \<Rightarrow> json \<Rightarrow> bool" where
  "node_agrees rows x =
     (if length rows = 1 \<and> row_key (rows ! 0) = None
      then scalar_of x = Some (row_value (rows ! 0))
      else (case x of
              JObj ms \<Rightarrow> map (\<lambda>(k, y). (k, scalar_of y)) ms
                           = map (\<lambda>(k, p). (k, Some p)) (row_members rows)
            | _ \<Rightarrow> False))"

text \<open>
  A value is stable when the text the form shows for it is coerced back to it. The
  rows of a node round-trip when the node is a single keyless row with a stable value,
  or all its rows are editable, with keys other than \<open>__proto__\<close> and stable values.
\<close>

definition stable :: "runtime \<Rightarrow> prim \<Rightarrow> bool" where
  "stable R p \<longleftrightarrow> parsePrimitive R (String_or_empty R p) = p"

definition round_trips :: "runtime \<Rightarrow> row list \<Rightarrow> bool" where
  "round_trips R rows \<longleftrightarrow>
     (length rows = 1 \<and> row_key (rows ! 0) = None \<and> stable R (row_value (rows ! 0)))
     \<or> list_all (\<lambda>r. editable r \<and> row_key r \<noteq> Some ''__proto__'' \<and> stable R (row_value r)) rows"

definition path_of :: "node \<Rightarrow> seg list" where
  "path_of nodeData = (case node_path nodeData of None \<Rightarrow> [] | Some p \<Rightarrow> p)"

text \<open>The form as the effect fills it when editing starts on rows that round-trip.\<close>

definition shown :: "runtime \<Rightarrow> row list \<Rightarrow> (string \<times> string) list" where
  "shown R rows =
     (if length rows = 1 \<and> row_key (rows ! 0) = None
      then [('''', String_or_empty R (row_value (rows ! 0)))]
      else map (\<lambda>(k, p). (k, String_or_empty R p)) (row_members rows))"

text \<open>
  Three sessions in view mode on the member \<open>n\<close> of a document: one where \<open>n\<close> is
  \<open>{"a": "x", "c": [null, null]}\<close>, shown as a string row and an array row; one where
  \<open>n\<close> is \<open>{"a": "42"}\<close>, the string \<open>"42"\<close>; one where \<open>n\<close> is written
  \<open>{"b": "x", "1": "y"}\<close>, the index key after the other.
\<close>

definition nested_state :: session where
  "nested_state =
     \<lparr> isEditing = False, form = [],
       useGraph = sample_graph
         \<lparr> node_text = [string_row (Some ''a'') ''x'',
                        \<lparr> row_key = Some ''c'', row_value = Str ''[2 items]'', row_type = ''array'' \<rparr>],
           node_path = Some [Key ''n''] \<rparr>,
       useJson = Json (JObj [(''n'', JObj [(''a'', JStr ''x''), (''c'', JArr [JNull, JNull])])]) \<rparr>"

definition digits_state :: session where
  "digits_state =
     \<lparr> isEditing = False, form = [],
       useGraph = sample_graph \<lparr> node_text = [string_row (Some ''a'') ''42''],
                                 node_path = Some [Key ''n''] \<rparr>,
       useJson = Json (JObj [(''n'', JObj [(''a'', JStr ''42'')])]) \<rparr>"

definition indexed_state :: session where
  "indexed_state =
     \<lparr> isEditing = False, form = [],
       useGraph = sample_graph \<lparr> node_text = [string_row (Some ''b'') ''x'', string_row (Some ''1'') ''y''],
                                 node_path = Some [Key ''n''] \<rparr>,
       useJson = Json (JObj [(''n'', JObj [(''b'', JStr ''x''), (''1'', JStr ''y'')])]) \<rparr>"

section \<open>Properties of the coercion\<close>

lemma table_runtime_facts:
  "\<not> isNaN (toNumber table_runtime ''42'')"
  "numToString table_runtime (toNumber table_runtime ''42'') = ''42''"
  "\<not> isNaN (toNumber table_runtime ''3.14'')"
  "numToString table_runtime (toNumber table_runtime ''3.14'') = ''3.14''"
  "numToString table_runtime (toNumber table_runtime ''007'') \<noteq> ''007''"
  "isNaN (toNumber table_runtime ''abc'')"
  by (simp_all add: table_runtime_def isNaN_def)

lemma table_runtime_numbers:
  "toNumber table_runtime ''42'' = 0x4045000000000000"
  "toNumber table_runtime ''3.14'' = 0x40091EB851EB851F"
  by (simp_all add: table_runtime_def)

text \<open>
  C8. \<open>parsePrimitive\<close> has no failing branch and its result is always one of
  \<open>true\<close>, \<open>false\<close>, \<open>null\<close>, a number or a string (never \<open>undefined\<close>). Given what
  JavaScript's \<open>Number\<close> and \<open>String\<close> do on the four literals (\<open>"42"\<close> and
  \<open>"3.14"\<close> convert to numbers that print back as themselves, \<open>"007"\<close> does not
  print back as itself, \<open>"abc"\<close> converts to NaN), it satisfies the coercion table,
  the numbers \<open>42\<close> and \<open>3.14\<close> being the numbers these literals denote. A string is
  returned as a number only if the number is not NaN and prints back as exactly that
  string; every string other than the three keywords that fails this test is
  returned as it is.
\<close>

theorem parsePrimitive_table:
  assumes "\<not> isNaN (toNumber R ''42'')" and "numToString R (toNumber R ''42'') = ''42''"
    and "\<not> isNaN (toNumber R ''3.14'')" and "numToString R (toNumber R ''3.14'') = ''3.14''"
    and "numToString R (toNumber R ''007'') \<noteq> ''007''"
    and "isNaN (toNumber R ''abc'')"
  shows "parsePrimitive R ''true'' = Bool True
       \<and> parsePrimitive R ''false'' = Bool False
       \<and> parsePrimitive R ''null'' = Null
       \<and> parsePrimitive R '''' = Str ''''
       \<and> parsePrimitive R ''42'' = Num (toNumber R ''42'')
       \<and> parsePrimitive R ''3.14'' = Num (toNumber R ''3.14'')
       \<and> parsePrimitive R ''007'' = Str ''007''
       \<and> parsePrimitive R ''abc'' = Str ''abc''
       \<and> (\<forall>v. parsePrimitive R v \<in> {Bool True, Bool False, Null, Str v, Num (toNumber R v)})
       \<and> (\<forall>v n. parsePrimitive R v = Num n \<longrightarrow>
                  n = toNumber R v \<and> \<not> isNaN n \<and> numToString R n = v)
       \<and> (\<forall>v. v \<notin> {''true'', ''false'', ''null''} \<longrightarrow>
                \<not> (\<not> isNaN (toNumber R v) \<and> numToString R (toNumber R v) = v) \<longrightarrow>
                parsePrimitive R v = Str v)"
  using assms by (auto simp add: parsePrimitive_def Let_def)

theorem parsePrimitive_table_witness:
  "parsePrimitive table_runtime ''true'' = Bool True
   \<and> parsePrimitive table_runtime '''' = Str ''''
   \<and> parsePrimitive table_runtime ''42'' = Num 0x4045000000000000
   \<and> parsePrimitive table_runtime ''3.14'' = Num 0x40091EB851EB851F
   \<and> parsePrimitive table_runtime ''007'' = Str ''007''
   \<and> parsePrimitive table_runtime ''abc'' = Str ''abc''"
  using parsePrimitive_table [OF table_runtime_facts]
  unfolding table_runtime_numbers by simp

section \<open>Assignment to a property\<close>

lemma upd_Nil [simp]: "upd k v [] = [(k, v)]"
  by (simp add: upd_def split: option.splits)

text \<open>An index key defined after another key is enumerated before it.\<close>

lemma index_first: "upd ''1'' v [(''b'', w)] = [(''1'', v), (''b'', w)]"
  by (simp add: upd_def is_digit_def nat_of_digits_def)

lemma keys_overwrite: "map fst (overwrite k v ps) = map fst ps"
  by (induction ps) auto

lemma set_overwrite: "set (overwrite k v ps) \<subseteq> insert (k, v) (set ps)"
  by (induction ps) (auto split: if_splits)

lemma set_ins: "set (ins i k v ps) = insert (k, v) (set ps)"
  by (induction ps) (auto split: option.splits if_splits simp del: as_index.simps)

lemma keys_upd: "fst ` set (upd k v m) = insert k (fst ` set m)"
proof (cases "k \<in> set (map fst m)")
  case True
  have "fst ` set (overwrite k v m) = set (map fst (overwrite k v m))" by simp
  also have "\<dots> = fst ` set m" by (simp only: keys_overwrite) simp
  finally show ?thesis using True by (auto simp add: upd_def)
next
  case False
  then show ?thesis
    by (auto simp add: upd_def set_ins split: option.splits simp del: as_index.simps)
qed

lemma set_upd: "set (upd k v ps) \<subseteq> insert (k, v) (set ps)"
  using set_overwrite [of k v ps]
  by (auto simp add: upd_def set_ins split: option.splits simp del: as_index.simps)




lemma keys_map_values: "map fst (map (\<lambda>(k, x). (k, g x)) ps) = map fst ps"
  by (induction ps) auto

lemma overwrite_map:
  "map (\<lambda>(k, x). (k, g x)) (overwrite k v ps) = overwrite k (g v) (map (\<lambda>(k, x). (k, g x)) ps)"
  by (induction ps) auto

lemma ins_map:
  "map (\<lambda>(k, x). (k, g x)) (ins i k v ps) = ins i k (g v) (map (\<lambda>(k, x). (k, g x)) ps)"
  by (induction ps) (auto split: option.splits simp del: as_index.simps)

lemma upd_map:
  "map (\<lambda>(k, x). (k, g x)) (upd k v ps) = upd k (g v) (map (\<lambda>(k, x). (k, g x)) ps)"
  unfolding upd_def keys_map_values
  by (simp add: overwrite_map ins_map split: option.splits del: as_index.simps)

lemma enumerated_ins:
  assumes "as_index (Key k) = Some i" and "k \<notin> fst ` set ps" and "enumerated ps"
  shows "enumerated (ins i k v ps)"
  using assms(2,3)
proof (induction ps)
  case Nil
  then show ?case by (simp add: enumerated_def)
next
  case (Cons p ps)
  obtain k' v' where p: "p = (k', v')" by (cases p)
  from Cons.prems p have new: "k \<noteq> k'" "k \<notin> fst ` set ps"
    and ord: "\<forall>q \<in> set ps. precedes k' (fst q)" "enumerated ps"
    by (auto simp add: enumerated_def)
  show ?case
  proof (cases "as_index (Key k')")
    case None
    have "\<forall>q \<in> set (p # ps). precedes k (fst q)"
      using ord(1) new None p assms(1)
      by (auto simp add: precedes_def split: option.splits simp del: as_index.simps)
    with Cons.prems(2) None p show ?thesis
      by (simp add: enumerated_def del: as_index.simps)
  next
    case (Some i')
    show ?thesis
    proof (cases "i < i'")
      case True
      have "\<forall>q \<in> set (p # ps). precedes k (fst q)"
        using ord(1) new Some p assms(1) True
        by (auto simp add: precedes_def split: option.splits simp del: as_index.simps)
      with Cons.prems(2) Some True p show ?thesis
        by (simp add: enumerated_def del: as_index.simps)
    next
      case False
      have "\<forall>q \<in> set (ins i k v ps). precedes k' (fst q)"
        using ord(1) new Some assms(1) False
        by (auto simp add: precedes_def set_ins split: option.splits simp del: as_index.simps)
      with Cons.IH [OF new(2) ord(2)] Some False p show ?thesis
        by (simp add: enumerated_def del: as_index.simps)
    qed
  qed
qed

lemma enumerated_upd: "enumerated ps \<Longrightarrow> enumerated (upd k v ps)"
proof (cases "k \<in> set (map fst ps)")
  case True
  assume "enumerated ps"
  with True show ?thesis by (simp add: upd_def enumerated_def keys_overwrite)
next
  case False
  assume e: "enumerated ps"
  show ?thesis
  proof (cases "as_index (Key k)")
    case None
    with False e show ?thesis
      by (auto simp add: upd_def enumerated_def sorted_wrt_append precedes_def
            simp del: as_index.simps)
  next
    case (Some i)
    with False enumerated_ins [OF Some _ e, of v] show ?thesis
      by (simp add: upd_def del: as_index.simps)
  qed
qed

lemma ins_last:
  "\<forall>p \<in> set ps. \<exists>a. as_index (Key (fst p)) = Some a \<and> a \<le> i \<Longrightarrow> ins i k v ps = ps @ [(k, v)]"
  by (induction ps) (auto simp del: as_index.simps)

lemma upd_last:
  assumes "enumerated (ps @ [(k, v)])"
  shows "upd k v ps = ps @ [(k, v)]"
proof -
  from assms have pre: "\<forall>p \<in> set ps. precedes (fst p) k"
    by (auto simp add: enumerated_def sorted_wrt_append)
  then have new: "k \<notin> set (map fst ps)" by (auto simp add: precedes_def)
  show ?thesis
  proof (cases "as_index (Key k)")
    case None
    with new show ?thesis by (simp add: upd_def del: as_index.simps)
  next
    case (Some i)
    have "\<forall>p \<in> set ps. \<exists>a. as_index (Key (fst p)) = Some a \<and> a \<le> i"
      using pre Some by (auto simp add: precedes_def split: option.splits simp del: as_index.simps)
    from ins_last [OF this] new Some show ?thesis by (simp add: upd_def del: as_index.simps)
  qed
qed

section \<open>Properties of setValueAtPath on given roots\<close>

lemmas js_defs = js_get_def js_set_def own_prop_def put_prop_def nullish_def typeof_object_def
  Array_isArray_def is_plain_object_def set_elem_def upd_def is_digit_def

lemma replicate_two: "replicate 2 x = [x, x]"
  by (simp add: numeral_2_eq_2)

lemma small_numbers_finite:
  "isFinite 0x3FF0000000000000" "isFinite 0x4000000000000000" "isFinite 0x4008000000000000"
  by (simp_all add: isFinite_def)

lemma key_y_not_index: "as_index (Key ''y'') = None"
  by (simp add: is_digit_def)

text \<open>
  C7. For every replacement, installing it at the path \<open>["a", 2, "b"]\<close> into a root
  that is the empty object returns the root, in a store where \<open>root.a\<close> is a new
  array, \<open>root.a[2]\<close> a new object (the two elements before it are holes) and
  \<open>root.a[2].b\<close> the replacement: the container created for a missing value is an
  array when the next segment is a number and an object when it is a string.
\<close>

theorem install_creates_containers:
  assumes "r < length h" and "h ! r = Object []"
    and "h' = (h @ [Array [Prim Undefined, Prim Undefined, Ref (Suc (length h))] [],
                    Object [(''b'', replacement)]])[r := Object [(''a'', Ref (length h))]]"
  shows "setValueAtPath h (Ref r) (Some [Key ''a'', Idx 2, Key ''b'']) replacement = (Inr (Ref r), h')
       \<and> js_get h' (Ref r) (Key ''a'') = Inr (Ref (length h))
       \<and> Array_isArray h' (Ref (length h))
       \<and> js_get h' (Ref (length h)) (Idx 2) = Inr (Ref (Suc (length h)))
       \<and> is_plain_object h' (Ref (Suc (length h)))
       \<and> js_get h' (Ref (Suc (length h))) (Key ''b'') = Inr replacement"
  using assms
  by (simp add: setValueAtPath_def js_defs nth_append list_update_append replicate_two)

theorem install_creates_containers_witness:
  "setValueAtPath [Object []] (Ref 0) (Some [Key ''a'', Idx 2, Key ''b'']) (Prim (Str ''v''))
     = (Inr (Ref 0), [Object [(''a'', Ref 1)], Array [Prim Undefined, Prim Undefined, Ref 2] [],
                      Object [(''b'', Prim (Str ''v''))]])"
  using install_creates_containers [of 0 "[Object []]" _ "Prim (Str ''v'')", OF _ _ refl]
  by simp

text \<open>
  C1, as the spec states it, fails: installing \<open>"r"\<close> at \<open>["x", "y"]\<close> into
  \<open>{"x": [1,2,3]}\<close> leaves the array where it is (an array is \<open>typeof "object"\<close>, so
  line 44 does not replace it) and assigns the replacement to the array's property
  \<open>"y"\<close>; the root then prints as \<open>{"x": [1,2,3]}\<close>, not as \<open>{"x": {"y": "r"}}\<close>.
\<close>

theorem install_keeps_array_counterexample:
  "setValueAtPath [Array [Prim (Num 0x3FF0000000000000), Prim (Num 0x4000000000000000),
                          Prim (Num 0x4008000000000000)] [],
                   Object [(''x'', Ref 0)]]
       (Ref 1) (Some [Key ''x'', Key ''y'']) (Prim (Str ''r''))
     = (Inr (Ref 1),
        [Array [Prim (Num 0x3FF0000000000000), Prim (Num 0x4000000000000000),
                Prim (Num 0x4008000000000000)] [(''y'', Prim (Str ''r''))],
         Object [(''x'', Ref 0)]])
   \<and> JSON_stringify
        [Array [Prim (Num 0x3FF0000000000000), Prim (Num 0x4000000000000000),
                Prim (Num 0x4008000000000000)] [(''y'', Prim (Str ''r''))],
         Object [(''x'', Ref 0)]] (Ref 1)
     = Inr (Some (JObj [(''x'', JArr [JNum 0x3FF0000000000000, JNum 0x4000000000000000,
                                      JNum 0x4008000000000000])]))
   \<and> JObj [(''x'', JArr [JNum 0x3FF0000000000000, JNum 0x4000000000000000,
                          JNum 0x4008000000000000])]
     \<noteq> JObj [(''x'', JObj [(''y'', JStr ''r'')])]"
  by (simp add: setValueAtPath_def js_defs JSON_stringify_def prim_json_def num_json_def
        members_def elements_def small_numbers_finite)

text \<open>
  C1, amended. For every replacement, installing it at \<open>["x", "y"]\<close> into a root
  object whose member \<open>x\<close> is an array returns the root with \<open>x\<close> still that
  array and the elements of the array as they were: line 44 replaces only what is
  \<open>null\<close>, \<open>undefined\<close> or not \<open>typeof "object"\<close>. The value under \<open>x\<close> is replaced
  by a fresh object, its prior content discarded, when it is a primitive: the root
  then is \<open>{"x": {"y": replacement}}\<close>.
\<close>

theorem install_string_segment_descent:
  assumes "r < length h"
  shows "(a < length h \<and> h ! r = Object [(''x'', Ref a)] \<and> h ! a = Array es [] \<longrightarrow>
            (\<exists>h' ps. setValueAtPath h (Ref r) (Some [Key ''x'', Key ''y'']) replacement
                         = (Inr (Ref r), h')
                     \<and> h' ! r = Object [(''x'', Ref a)] \<and> h' ! a = Array es ps))
       \<and> (h ! r = Object [(''x'', Prim p)] \<longrightarrow>
            setValueAtPath h (Ref r) (Some [Key ''x'', Key ''y'']) replacement
              = (Inr (Ref r), (h @ [Object [(''y'', replacement)]])[r := Object [(''x'', Ref (length h))]]))"
proof (intro conjI impI)
  assume a: "a < length h \<and> h ! r = Object [(''x'', Ref a)] \<and> h ! a = Array es []"
  then have "setValueAtPath h (Ref r) (Some [Key ''x'', Key ''y'']) replacement
              = (Inr (Ref r), h[a := Array es [(''y'', replacement)]])"
    using assms by (simp add: setValueAtPath_def js_defs key_y_not_index del: as_index.simps)
  moreover from a have "a \<noteq> r" by auto
  ultimately show "\<exists>h' ps. setValueAtPath h (Ref r) (Some [Key ''x'', Key ''y'']) replacement
                         = (Inr (Ref r), h')
                     \<and> h' ! r = Object [(''x'', Ref a)] \<and> h' ! a = Array es ps"
    using a by simp
next
  assume "h ! r = Object [(''x'', Prim p)]"
  then show "setValueAtPath h (Ref r) (Some [Key ''x'', Key ''y'']) replacement
              = (Inr (Ref r), (h @ [Object [(''y'', replacement)]])[r := Object [(''x'', Ref (length h))]])"
    using assms
    by (cases p) (simp_all add: setValueAtPath_def js_defs nth_append list_update_append)
qed

theorem install_string_segment_descent_witness:
  "(\<exists>h' ps. setValueAtPath [Array [Prim (Num 0x3FF0000000000000), Prim (Num 0x4000000000000000),
                                     Prim (Num 0x4008000000000000)] [],
                              Object [(''x'', Ref 0)]]
                  (Ref 1) (Some [Key ''x'', Key ''y'']) (Prim (Bool True)) = (Inr (Ref 1), h')
            \<and> h' ! 1 = Object [(''x'', Ref 0)]
            \<and> h' ! 0 = Array [Prim (Num 0x3FF0000000000000), Prim (Num 0x4000000000000000),
                               Prim (Num 0x4008000000000000)] ps)
   \<and> setValueAtPath [Object [(''x'', Prim (Num 0x4014000000000000))]]
       (Ref 0) (Some [Key ''x'', Key ''y'']) (Prim (Bool True))
     = (Inr (Ref 0), [Object [(''x'', Ref 1)], Object [(''y'', Prim (Bool True))]])"
  using install_string_segment_descent
          [of 1 "[Array [Prim (Num 0x3FF0000000000000), Prim (Num 0x4000000000000000),
                         Prim (Num 0x4008000000000000)] [], Object [(''x'', Ref 0)]]"
              0 "[Prim (Num 0x3FF0000000000000), Prim (Num 0x4000000000000000),
                  Prim (Num 0x4008000000000000)]" "Prim (Bool True)"]
        install_string_segment_descent
          [of 0 "[Object [(''x'', Prim (Num 0x4014000000000000))]]" _ _ "Prim (Bool True)"
              "Num 0x4014000000000000"]
  by simp

text \<open>
  C2 does not hold of the code. Installing at \<open>[0, "a"]\<close> over the root \<open>{}\<close>: the
  root is not an array, line 36 binds the local \<open>cur\<close> to a fresh array, the object
  holding the replacement is put into that array, and the root, which is what is
  returned, is untouched and prints as \<open>{}\<close>.
\<close>

theorem install_index_over_object_root:
  "setValueAtPath [Object []] (Ref 0) (Some [Idx 0, Key ''a'']) (Prim (Str ''v''))
     = (Inr (Ref 0), [Object [], Array [Ref 2] [], Object [(''a'', Prim (Str ''v''))]])
   \<and> JSON_stringify [Object [], Array [Ref 2] [], Object [(''a'', Prim (Str ''v''))]] (Ref 0)
     = Inr (Some (JObj []))"
  by (simp add: setValueAtPath_def js_defs JSON_stringify_def members_def)

section \<open>Properties of the edit session\<close>

text \<open>
  C5. A save in edit mode, on a selected node, while the document text is malformed:
  the body of the \<open>try\<close> throws at \<open>JSON.parse\<close> and never reaches \<open>setJson\<close>, the
  document store keeps its text, the form is emptied and editing is off.
\<close>

theorem save_parse_failure:
  assumes "selectedNode (useGraph st) = Some nodeData"
    and "isEditing st"
    and "useJson st = Malformed s"
  shows "persist R (form st) nodeData (useJson st) = Inl SyntaxError
       \<and> useJson (save R st) = useJson st
       \<and> form (save R st) = []
       \<and> \<not> isEditing (save R st)"
  using assms
  by (simp add: save_def handleSave_def persist_def JSON_parse_def rerender_def effect_def
        update_store_def Let_def)

theorem save_parse_failure_witness:
  "persist table_runtime (form broken_state)
       \<lparr> node_text = [string_row (Some ''a'') ''old''], node_path = Some [] \<rparr>
       (useJson broken_state) = Inl SyntaxError
   \<and> useJson (save table_runtime broken_state) = Malformed ''{''
   \<and> form (save table_runtime broken_state) = []
   \<and> \<not> isEditing (save table_runtime broken_state)"
  using save_parse_failure
          [of broken_state "\<lparr> node_text = [string_row (Some ''a'') ''old''], node_path = Some [] \<rparr>"
              "''{''" table_runtime]
  by (simp add: broken_state_def sample_graph_def)

text \<open>
  C9, as the spec states it, fails: on a node with the scalar rows \<open>""\<close> and \<open>"a"\<close>
  the form gets the key \<open>"a"\<close> only, since line 98 skips a row whose key is empty.
\<close>

theorem form_keys_counterexample:
  "form (start table_runtime view_state) = [(''a'', ''v'')]"
  by (simp add: view_state_def sample_graph_def string_row_def start_def startEditing_def
        rerender_def effect_def editable_def truthy_key_def rec_set_def String_or_empty_def
        js_String_def)

lemma keys_rec_set:
  "fst ` set (rec_set k v m) = (if k = ''__proto__'' then {} else {k}) \<union> fst ` set m"
  by (simp add: rec_set_def keys_upd)

lemma keys_fill:
  "fst ` set (foldl (\<lambda>values r. if editable r
                                  then rec_set (the (row_key r)) (f r) values
                                  else values) acc rows)
     = fst ` set acc
       \<union> {k. k \<noteq> ''__proto__'' \<and> (\<exists>r \<in> set rows. editable r \<and> row_key r = Some k)}"
proof (induction rows arbitrary: acc)
  case Nil
  then show ?case by simp
next
  case (Cons r rows)
  show ?case
  proof (cases "editable r")
    case True
    then obtain k where k: "row_key r = Some k"
      by (auto simp add: editable_def truthy_key_def split: option.splits)
    with True show ?thesis
      by (auto simp add: Cons.IH keys_rec_set)
  next
    case False
    then show ?thesis by (auto simp add: Cons.IH)
  qed
qed

text \<open>
  C9, amended. When editing starts (view mode, a node selected), the keys of the form
  are exactly the non-empty keys, other than \<open>__proto__\<close>, of the rows whose type is
  neither \<open>"object"\<close> nor \<open>"array"\<close>; or exactly the empty-string key when the node is
  a single row whose key is absent or empty.
\<close>

theorem form_keys_on_start:
  assumes "selectedNode (useGraph st) = Some nodeData"
    and "\<not> isEditing st"
  shows "set (map fst (form (start R st))) =
           (if length (node_text nodeData) = 1 \<and> \<not> truthy_key (row_key (node_text nodeData ! 0))
            then {''''}
            else {k. k \<noteq> '''' \<and> k \<noteq> ''__proto__''
                     \<and> (\<exists>r \<in> set (node_text nodeData).
                           row_key r = Some k \<and> row_type r \<noteq> ''array'' \<and> row_type r \<noteq> ''object'')})"
proof -
  have "{k. k \<noteq> ''__proto__'' \<and> (\<exists>r \<in> set (node_text nodeData). editable r \<and> row_key r = Some k)}
      = {k. k \<noteq> '''' \<and> k \<noteq> ''__proto__''
             \<and> (\<exists>r \<in> set (node_text nodeData).
                   row_key r = Some k \<and> row_type r \<noteq> ''array'' \<and> row_type r \<noteq> ''object'')}"
    by (auto simp add: editable_def truthy_key_def)
  then show ?thesis
    using assms
    by (simp add: start_def startEditing_def rerender_def effect_def keys_fill)
qed

theorem form_keys_on_start_witness:
  "set (map fst (form (start table_runtime view_state))) = {''a''}"
  using form_keys_on_start [of view_state _ table_runtime]
  by (auto simp add: view_state_def sample_graph_def string_row_def truthy_key_def)

text \<open>
  C10. On a save with a node selected and an update operation in the selection store,
  the store receives the node with the rows of the form, whatever the document text
  is: the update comes before the \<open>try\<close>. When the text is malformed the document
  store keeps it, so the selection store holds edited rows that the document does not.
\<close>

theorem save_updates_selection_before_parse:
  assumes "selectedNode (useGraph st) = Some nodeData"
    and "updater (useGraph st) = Setter"
  shows "selectedNode (useGraph (save R st))
           = Some (nodeData\<lparr>node_text := newRows (form st) nodeData\<rparr>)
       \<and> (\<forall>s. useJson st = Malformed s \<longrightarrow> useJson (save R st) = Malformed s)"
  using assms
  by (auto simp add: save_def handleSave_def persist_def JSON_parse_def rerender_def effect_def
        update_store_def Let_def split: sum.splits option.splits)

theorem save_updates_selection_before_parse_witness:
  "selectedNode (useGraph broken_state)
     = Some \<lparr> node_text = [string_row (Some ''a'') ''old''], node_path = Some [] \<rparr>
   \<and> selectedNode (useGraph (save table_runtime broken_state))
     = Some \<lparr> node_text = [string_row (Some ''a'') ''new''], node_path = Some [] \<rparr>
   \<and> useJson (save table_runtime broken_state) = Malformed ''{''"
  using save_updates_selection_before_parse
          [of broken_state "\<lparr> node_text = [string_row (Some ''a'') ''old''], node_path = Some [] \<rparr>"
              table_runtime]
  by (simp add: broken_state_def sample_graph_def updater_def newRows_def new_row_def
        string_row_def editable_def truthy_key_def)

section \<open>What setValueAtPath can write to\<close>

lemma fresh_Prim [simp]: "fresh n (Prim p)"
  by (simp add: fresh_def)

lemma fresh_Ref [simp]: "fresh n (Ref a) \<longleftrightarrow> n \<le> a"
  by (simp add: fresh_def)


lemma upd_fresh:
  "list_all (fresh n) (map snd ps) \<Longrightarrow> fresh n x \<Longrightarrow> list_all (fresh n) (map snd (upd k x ps))"
  using set_upd [of k x ps] by (fastforce simp add: list_all_iff)






lemma closed_above_alloc:
  assumes "closed_above n h" and "list_all (fresh n) (refs_of c)"
  shows "closed_above n (h @ [c])"
  using assms by (auto simp add: closed_above_def nth_append)




lemma build_frame:
  "n \<le> length h \<Longrightarrow> closed_above n h \<Longrightarrow> build h j = (v, h') \<Longrightarrow>
     (\<exists>cs. h' = h @ cs) \<and> closed_above n h' \<and> fresh n v"
  "n \<le> length h \<Longrightarrow> closed_above n h \<Longrightarrow> build_list h xs = (vs, h') \<Longrightarrow>
     (\<exists>cs. h' = h @ cs) \<and> closed_above n h' \<and> list_all (fresh n) vs"
  "n \<le> length h \<Longrightarrow> closed_above n h \<Longrightarrow> list_all (fresh n) (map snd acc) \<Longrightarrow>
     build_props h acc ms = (qs, h') \<Longrightarrow>
     (\<exists>cs. h' = h @ cs) \<and> closed_above n h' \<and> list_all (fresh n) (map snd qs)"
proof (induction h j and h xs and h acc ms arbitrary: v h' and vs h' and qs h'
       rule: build_build_list_build_props.induct)
  case (5 h xs)
  obtain vs h1 where b: "build_list h xs = (vs, h1)" by (cases "build_list h xs")
  from "5.IH" [OF "5.prems"(1,2) b]
  obtain cs where s: "h1 = h @ cs" "closed_above n h1" "list_all (fresh n) vs" by blast
  have "closed_above n (h1 @ [Array vs []])"
    using s by (intro closed_above_alloc) (simp_all add: refs_of_def)
  moreover have "v = Ref (length h1)" "h' = h1 @ [Array vs []]"
    using "5.prems"(3) b by simp_all
  ultimately show ?case using s(1) "5.prems"(1) by simp
next
  case (6 h ms)
  obtain qs h1 where b: "build_props h [] ms = (qs, h1)" by (cases "build_props h [] ms")
  from "6.IH" [OF "6.prems"(1,2) _ b]
  obtain cs where s: "h1 = h @ cs" "closed_above n h1" "list_all (fresh n) (map snd qs)"
    by auto
  have "closed_above n (h1 @ [Object qs])"
    using s by (intro closed_above_alloc) (simp_all add: refs_of_def)
  moreover have "v = Ref (length h1)" "h' = h1 @ [Object qs]"
    using "6.prems"(3) b by simp_all
  ultimately show ?case using s(1) "6.prems"(1) by simp
next
  case (8 h x xs)
  obtain v1 h1 where b1: "build h x = (v1, h1)" by (cases "build h x")
  obtain vs2 h2 where b2: "build_list h1 xs = (vs2, h2)" by (cases "build_list h1 xs")
  from "8.IH"(1) [OF "8.prems"(1,2) b1]
  obtain cs1 where s1: "h1 = h @ cs1" "closed_above n h1" "fresh n v1" by blast
  have n1: "n \<le> length h1" using s1(1) "8.prems"(1) by simp
  from "8.IH"(2) [OF b1 [symmetric] n1 s1(2) b2]
  obtain cs2 where s2: "h2 = h1 @ cs2" "closed_above n h2" "list_all (fresh n) vs2" by blast
  have "vs = v1 # vs2" "h' = h2" using "8.prems"(3) b1 b2 by simp_all
  then show ?case using s1 s2 by simp
next
  case (10 h acc k x ms)
  obtain v1 h1 where b1: "build h x = (v1, h1)" by (cases "build h x")
  from "10.IH"(1) [OF "10.prems"(1,2) b1]
  obtain cs1 where s1: "h1 = h @ cs1" "closed_above n h1" "fresh n v1" by blast
  have n1: "n \<le> length h1" using s1(1) "10.prems"(1) by simp
  have fr: "list_all (fresh n) (map snd (upd k v1 acc))"
    using "10.prems"(3) s1(3) by (rule upd_fresh)
  have b2: "build_props h1 (upd k v1 acc) ms = (qs, h')"
    using "10.prems"(4) b1 by simp
  from "10.IH"(2) [OF b1 [symmetric] n1 s1(2) fr b2]
  obtain cs2 where s2: "h' = h1 @ cs2" "closed_above n h'" "list_all (fresh n) (map snd qs)"
    by blast
  then show ?case using s1 by simp
qed auto

lemma closed_above_top: "closed_above (length h) h"
  by (auto simp add: closed_above_def)



section \<open>The runs that the model follows to their end\<close>

lemma below_mono: "below b v \<Longrightarrow> b \<le> b' \<Longrightarrow> below b' v"
  by (cases v) (auto simp add: below_def)

lemma below_Prim [simp]: "below b (Prim p)"
  by (simp add: below_def)

lemma below_Ref [simp]: "below b (Ref a) \<longleftrightarrow> a < b"
  by (simp add: below_def)













section \<open>The object that setValueAtPath writes to\<close>






section \<open>Reading and printing a text\<close>

text \<open>Negative zero is printed \<open>0\<close>, and \<open>0\<close> is read as zero.\<close>

lemma stringify_negative_zero:
  "JSON_stringify h (Prim (Num 0x8000000000000000)) = Inr (Some (JNum 0))"
  "printed (JNum 0x8000000000000000) \<noteq> JNum 0x8000000000000000"
  by (simp_all add: JSON_stringify_def prim_json_def num_json_def isFinite_def)

lemma printed_props_map: "printed_props ms = map (\<lambda>(k, x). (k, printed x)) ms"
  by (induction ms) auto

lemma parsed_num_json: "parsed (num_json n) = num_json n"
  by (simp add: num_json_def)

lemma printed_parsed:
  "printed (parsed j) = parsed (printed j)"
  "printed_list (parsed_list xs) = parsed_list (printed_list xs)"
  "printed_props (parsed_props acc ms) = parsed_props (printed_props acc) (printed_props ms)"
proof (induction j and xs and acc ms rule: parsed_parsed_list_parsed_props.induct)
  case (3 n)
  show ?case by (simp add: parsed_num_json)
next
  case (6 ms)
  then show ?case by simp
next
  case (10 acc k x ms)
  have "printed_props (upd k (parsed x) acc) = upd k (printed (parsed x)) (printed_props acc)"
    by (simp only: printed_props_map upd_map)
  with "10.IH" show ?case by simp
qed simp_all

lemma parsed_props_enumerated:
  "enumerated (acc @ ms) \<Longrightarrow> \<forall>m \<in> set ms. parsed (snd m) = snd m \<Longrightarrow>
     parsed_props acc ms = acc @ ms"
proof (induction ms arbitrary: acc)
  case Nil
  then show ?case by simp
next
  case (Cons m ms)
  obtain k x where m: "m = (k, x)" by (cases m)
  from Cons.prems(1) m have e: "enumerated ((acc @ [(k, x)]) @ ms)" by simp
  then have "enumerated (acc @ [(k, x)])"
    unfolding enumerated_def map_append sorted_wrt_append by blast
  then have u: "upd k x acc = acc @ [(k, x)]" by (rule upd_last)
  from Cons.prems(2) m have fx: "parsed x = x" "\<forall>m \<in> set ms. parsed (snd m) = snd m" by simp_all
  from Cons.IH [OF e fx(2)] m fx(1) u show ?case by simp
qed

lemma parsed_fixed:
  "parsed (parsed j) = parsed j"
  "parsed_list (parsed_list xs) = parsed_list xs"
  "enumerated acc \<Longrightarrow> \<forall>m \<in> set acc. parsed (snd m) = snd m \<Longrightarrow>
     enumerated (parsed_props acc ms) \<and> (\<forall>m \<in> set (parsed_props acc ms). parsed (snd m) = snd m)"
proof (induction j and xs and acc ms rule: parsed_parsed_list_parsed_props.induct)
  case (6 ms)
  have "enumerated ([] :: (string \<times> json) list)" by (simp add: enumerated_def)
  from "6.IH" [OF this]
  have e: "enumerated ([] @ parsed_props [] ms)"
    "\<forall>m \<in> set (parsed_props [] ms). parsed (snd m) = snd m" by simp_all
  from parsed_props_enumerated [OF e] show ?case by simp
next
  case (10 acc k x ms)
  have e: "enumerated (upd k (parsed x) acc)"
    using "10.prems"(1) by (rule enumerated_upd)
  have f: "\<forall>m \<in> set (upd k (parsed x) acc). parsed (snd m) = snd m"
    using "10.prems"(2) "10.IH"(1) set_upd [of k "parsed x" acc] by auto
  from "10.IH"(2) [OF e f] show ?case by simp
qed simp_all

lemma printed_fixed: "printed j = j \<Longrightarrow> printed (parsed j) = parsed j"
  by (simp add: printed_parsed)

section \<open>Values built by JSON.parse\<close>

lemma rep_extend:
  "rep h v j \<Longrightarrow> rep (h @ cs) v j"
  "rep_list h b es xs \<Longrightarrow> b \<le> b' \<Longrightarrow> rep_list (h @ cs) b' es xs"
  "rep_props h b ps ms \<Longrightarrow> b \<le> b' \<Longrightarrow> rep_props (h @ cs) b' ps ms"
proof (induction h v j and h b es xs and h b ps ms arbitrary: and b' and b'
       rule: rep_rep_list_rep_props.induct)
  case (5 h v xs)
  then show ?case
    by (auto simp add: nth_append split: jsval.splits hobj.splits)
next
  case (6 h v ms)
  then show ?case
    by (auto simp add: nth_append split: jsval.splits hobj.splits)
next
  case (8 h b es x xs)
  then show ?case
    by (auto split: list.splits intro: below_mono)
next
  case (10 h b ps k x ms)
  then show ?case
    by (auto split: list.splits intro: below_mono)
qed auto

lemma rep_below: "rep h v j \<Longrightarrow> below (length h) v"
  by (cases j; cases v) (auto simp add: below_def)

lemma rep_props_keys: "rep_props h b ps ms \<Longrightarrow> map fst ps = map fst ms"
proof (induction ms arbitrary: ps)
  case Nil
  then show ?case by simp
next
  case (Cons m ms)
  obtain k x where m: "m = (k, x)" by (cases m)
  with Cons.prems obtain e ps' where "ps = (k, e) # ps'" "rep_props h b ps' ms"
    by (auto split: list.splits)
  with Cons.IH m show ?case by auto
qed

lemma rep_props_overwrite:
  "rep_props h b ps ms \<Longrightarrow> rep h e x \<Longrightarrow> below b e \<Longrightarrow>
     rep_props h b (overwrite k e ps) (overwrite k x ms)"
proof (induction ms arbitrary: ps)
  case Nil
  then show ?case by simp
next
  case (Cons m ms)
  obtain k' x' where m: "m = (k', x')" by (cases m)
  with Cons.prems(1) obtain e' ps' where ps: "ps = (k', e') # ps'" "below b e'" "rep h e' x'"
    "rep_props h b ps' ms"
    by (auto split: list.splits)
  from Cons.IH [OF ps(4) Cons.prems(2,3)] ps m Cons.prems(2,3) show ?case by simp
qed

lemma rep_props_ins:
  "rep_props h b ps ms \<Longrightarrow> rep h e x \<Longrightarrow> below b e \<Longrightarrow>
     rep_props h b (ins i k e ps) (ins i k x ms)"
proof (induction ms arbitrary: ps)
  case Nil
  then show ?case by simp
next
  case (Cons m ms)
  obtain k' x' where m: "m = (k', x')" by (cases m)
  with Cons.prems(1) obtain e' ps' where ps: "ps = (k', e') # ps'" "below b e'" "rep h e' x'"
    "rep_props h b ps' ms"
    by (auto split: list.splits)
  from Cons.IH [OF ps(4) Cons.prems(2,3)] ps m Cons.prems(2,3) show ?case
    by (simp split: option.splits del: as_index.simps)
qed

lemma rep_props_snoc:
  "rep_props h b ps ms \<Longrightarrow> rep h e x \<Longrightarrow> below b e \<Longrightarrow>
     rep_props h b (ps @ [(k, e)]) (ms @ [(k, x)])"
proof (induction ms arbitrary: ps)
  case Nil
  then show ?case by simp
next
  case (Cons m ms)
  obtain k' x' where m: "m = (k', x')" by (cases m)
  with Cons.prems(1) obtain e' ps' where ps: "ps = (k', e') # ps'" "below b e'" "rep h e' x'"
    "rep_props h b ps' ms"
    by (auto split: list.splits)
  from Cons.IH [OF ps(4) Cons.prems(2,3)] ps m show ?case by simp
qed

lemma rep_props_upd:
  assumes "rep_props h b ps ms" and "rep h e x" and "below b e"
  shows "rep_props h b (upd k e ps) (upd k x ms)"
  unfolding upd_def rep_props_keys [OF assms(1)]
  using rep_props_overwrite [OF assms] rep_props_ins [OF assms] rep_props_snoc [OF assms]
  by (simp split: option.splits del: as_index.simps)

lemma build_rep:
  "build h j = (v, h') \<Longrightarrow> rep h' v (parsed j)"
  "build_list h xs = (vs, h') \<Longrightarrow> rep_list h' (length h') vs (parsed_list xs)"
  "build_props h acc ms = (qs, h') \<Longrightarrow> rep_props h (length h) acc accj \<Longrightarrow>
     rep_props h' (length h') qs (parsed_props accj ms)"
proof (induction h j and h xs and h acc ms arbitrary: v h' and vs h' and qs h' accj
       rule: build_build_list_build_props.induct)
  case (5 h xs)
  obtain vs h1 where b: "build_list h xs = (vs, h1)" by (cases "build_list h xs")
  from "5.IH" [OF b] have "rep_list (h1 @ [Array vs []]) (length h1) vs (parsed_list xs)"
    by (rule rep_extend(2)) simp
  with "5.prems" b show ?case by auto
next
  case (6 h ms)
  obtain qs h1 where b: "build_props h [] ms = (qs, h1)" by (cases "build_props h [] ms")
  have "rep_props h (length h) [] []" by simp
  from "6.IH" [OF b this] have "rep_props (h1 @ [Object qs]) (length h1) qs (parsed_props [] ms)"
    by (rule rep_extend(3)) simp
  with "6.prems" b show ?case by auto
next
  case (8 h x xs)
  obtain v1 h1 where b1: "build h x = (v1, h1)" by (cases "build h x")
  obtain vs2 h2 where b2: "build_list h1 xs = (vs2, h2)" by (cases "build_list h1 xs")
  have closed: "closed_above 0 h" "0 \<le> length h" for h
    by (simp_all add: closed_above_def fresh_def list_all_iff split: jsval.splits)
  from build_frame(2) [OF closed(2) closed(1) b2] obtain cs where cs: "h2 = h1 @ cs" by blast
  from "8.IH"(1) [OF b1] have r1: "rep h2 v1 (parsed x)" unfolding cs by (rule rep_extend(1))
  from "8.IH"(1) [OF b1] have "below (length h1) v1" by (rule rep_below)
  then have bl: "below (length h2) v1" by (rule below_mono) (simp add: cs)
  from "8.IH"(2) [OF b1 [symmetric] b2] have r2: "rep_list h2 (length h2) vs2 (parsed_list xs)" .
  from "8.prems" b1 b2 r1 r2 bl show ?case by auto
next
  case (9 h acc)
  then show ?case by simp
next
  case (10 h acc k x ms)
  obtain v1 h1 where b1: "build h x = (v1, h1)" by (cases "build h x")
  have closed: "closed_above 0 h" "0 \<le> length h" for h
    by (simp_all add: closed_above_def fresh_def list_all_iff split: jsval.splits)
  from build_frame(1) [OF closed(2) closed(1) b1] obtain cs where cs: "h1 = h @ cs" by blast
  from "10.IH"(1) [OF b1] have r1: "rep h1 v1 (parsed x)" .
  then have bl: "below (length h1) v1" by (rule rep_below)
  have "rep_props (h @ cs) (length h1) acc accj"
    using "10.prems"(2) by (rule rep_extend(3)) (simp add: cs)
  then have "rep_props h1 (length h1) acc accj" by (simp add: cs)
  from rep_props_upd [OF this r1 bl]
  have r2: "rep_props h1 (length h1) (upd k v1 acc) (upd k (parsed x) accj)" .
  have b2: "build_props h1 (upd k v1 acc) ms = (qs, h')"
    using "10.prems"(1) b1 by simp
  from "10.IH"(2) [OF b1 [symmetric] b2 r2] show ?case by simp
qed auto

lemma sequence_map_Inr: "sequence (map (Inr \<circ> g) ys) = Inr (map g ys)"
  by (induction ys) auto

lemma members_Some: "members (map (\<lambda>(k, x). (k, Some x)) ms) = ms"
  by (induction ms) (auto simp add: members_def)

lemma elements_Some: "elements (map Some xs) = xs"
  by (induction xs) (auto simp add: elements_def)

lemma ser_rep:
  "rep h v j \<Longrightarrow> below f v \<Longrightarrow> ser f h v = Inr (Some (printed j))"
  "rep_list h b es xs \<Longrightarrow> b \<le> f \<Longrightarrow> map (ser f h) es = map Inr (map Some (printed_list xs))"
  "rep_props h b ps ms \<Longrightarrow> b \<le> f \<Longrightarrow>
     map (\<lambda>(k, v). case ser f h v of Inl e \<Rightarrow> Inl e | Inr r \<Rightarrow> Inr (k, r)) ps
       = map Inr (map (\<lambda>(k, x). (k, Some x)) (printed_props ms))"
proof (induction h v j and h b es xs and h b ps ms arbitrary: f and f and f
       rule: rep_rep_list_rep_props.induct)
  case (5 h v xs)
  then obtain a es where v: "v = Ref a" "a < length h" "h ! a = Array es []" "rep_list h a es xs"
    by (auto split: jsval.splits hobj.splits)
  from "5.prems"(2) v obtain f' where f: "f = Suc f'" "a \<le> f'"
    by (cases f) (auto simp add: below_def)
  from "5.IH" [OF v(1) v(3) v(4) f(2)]
  have "map (ser f' h) es = map Inr (map Some (printed_list xs))" by simp
  with v f show ?case by (simp add: sequence_map_Inr elements_Some)
next
  case (6 h v ms)
  then obtain a ps where v: "v = Ref a" "a < length h" "h ! a = Object ps" "rep_props h a ps ms"
    by (auto split: jsval.splits hobj.splits)
  from "6.prems"(2) v obtain f' where f: "f = Suc f'" "a \<le> f'"
    by (cases f) (auto simp add: below_def)
  from "6.IH" [OF v(1) v(3) v(4) f(2)]
  have "map (\<lambda>(k, v). case ser f' h v of Inl e \<Rightarrow> Inl e | Inr r \<Rightarrow> Inr (k, r)) ps
          = map Inr (map (\<lambda>(k, x). (k, Some x)) (printed_props ms))" by simp
  with v f show ?case by (simp add: sequence_map_Inr members_Some)
next
  case (8 h b es x xs)
  from "8.prems"(1) obtain e es' where es: "es = e # es'" "below b e" "rep h e x"
    "rep_list h b es' xs"
    by (auto split: list.splits)
  from es(2) "8.prems"(2) have "below f e" by (rule below_mono)
  from "8.IH"(1) [OF es(1) es(3) this] "8.IH"(2) [OF es(1) es(4) "8.prems"(2)] es(1)
  show ?case by simp
next
  case (10 h b ps k x ms)
  from "10.prems"(1) obtain e ps' where ps: "ps = (k, e) # ps'" "below b e" "rep h e x"
    "rep_props h b ps' ms"
    by (auto split: list.splits)
  from ps(2) "10.prems"(2) have "below f e" by (rule below_mono)
  from "10.IH"(1) [OF ps(1) refl ps(3) this] "10.IH"(2) [OF ps(1) refl ps(4) "10.prems"(2)] ps(1)
  show ?case by simp
qed (auto simp add: prim_json_def)

lemma stringify_rep: "rep h v j \<Longrightarrow> JSON_stringify h v = Inr (Some (printed j))"
  unfolding JSON_stringify_def
  by (rule ser_rep(1)) (auto dest!: rep_below intro: below_mono)

section \<open>The stages of a save\<close>

lemma parsePrimitive_defined: "prim_json (parsePrimitive R v) \<noteq> None"
  by (simp add: parsePrimitive_def prim_json_def Let_def)

lemma sequence_flat:
  "sequence (map (\<lambda>(k, v). case ser f h v of Inl e \<Rightarrow> Inl e | Inr r \<Rightarrow> Inr (k, r))
                 (map (\<lambda>(k, p). (k, Prim p)) qs))
     = Inr (map (\<lambda>(k, p). (k, prim_json p)) qs)"
  by (induction qs) auto

lemma ser_flat:
  assumes "r < length h" and "h ! r = Object (map (\<lambda>(k, p). (k, Prim p)) qs)"
  shows "ser (Suc f) h (Ref r) = Inr (Some (JObj (members (map (\<lambda>(k, p). (k, prim_json p)) qs))))"
  using assms by (simp add: sequence_flat del: map_map)

lemma stringify_replacement:
  assumes "build_replacement R fm nodeData h1 = (replacement, h2)"
  shows "\<exists>J. JSON_stringify (h2 @ cs) replacement = Inr (Some J)
           \<and> JSON_stringify (snd (build_replacement R fm nodeData []))
                             (fst (build_replacement R fm nodeData [])) = Inr (Some J)"
proof (cases "length (node_text nodeData) = 1 \<and> row_key (node_text nodeData ! 0) = None")
  case True
  with assms show ?thesis
    using parsePrimitive_defined
    by (auto simp add: build_replacement_def JSON_stringify_def)
next
  case False
  with assms have r: "replacement = Ref (length h1)"
    "h2 = h1 @ [Object (map (\<lambda>(k, p). (k, Prim p)) (replacement_entries R fm))]"
    by (auto simp add: build_replacement_def)
  have "JSON_stringify (h2 @ cs) replacement
          = Inr (Some (JObj (members (map (\<lambda>(k, p). (k, prim_json p)) (replacement_entries R fm)))))"
    unfolding JSON_stringify_def r
    by (rule ser_flat) (simp_all add: nth_append)
  moreover have "build_replacement R fm nodeData []
          = (Ref 0, [Object (map (\<lambda>(k, p). (k, Prim p)) (replacement_entries R fm))])"
    using False by (auto simp add: build_replacement_def)
  then have "JSON_stringify (snd (build_replacement R fm nodeData []))
                             (fst (build_replacement R fm nodeData []))
          = Inr (Some (JObj (members (map (\<lambda>(k, p). (k, prim_json p)) (replacement_entries R fm)))))"
    by (simp add: JSON_stringify_def ser_flat del: ser.simps)
  ultimately show ?thesis by simp
qed

text \<open>The stages of persist up to the call of setValueAtPath.\<close>

lemma persist_stages:
  assumes "raw = Blank \<and> j0 = JObj [] \<or> raw = Json j0"
  shows "\<exists>root h1 replacement h2 newRoot cs.
           rep h1 root (parsed j0)
         \<and> build_replacement R fm nodeData h1 = (replacement, h2)
         \<and> build h2 (printed (parsed j0)) = (newRoot, h2 @ cs)
         \<and> rep (h2 @ cs) newRoot (parsed (printed (parsed j0)))
         \<and> persist R fm nodeData raw =
             (case setValueAtPath (h2 @ cs) newRoot (node_path nodeData) replacement of
                (Inl e, _) \<Rightarrow> Inl e
              | (Inr final, h4) \<Rightarrow>
                  (let toSave = (if node_path nodeData \<noteq> None \<and> node_path nodeData \<noteq> Some []
                                 then final else replacement)
                   in case JSON_stringify h4 toSave of
                        Inl e \<Rightarrow> Inl e
                      | Inr None \<Rightarrow> Inr Blank
                      | Inr (Some j) \<Rightarrow> Inr (Json j)))"
proof -
  obtain root h1 where start:
    "(if raw = Blank then (Inr (Ref 0), [Object []]) else JSON_parse [] raw) = (Inr root, h1)"
    "rep h1 root (parsed j0)"
  proof (cases "raw = Blank")
    case True
    with assms have "j0 = JObj []" by auto
    with True that [of "Ref 0" "[Object []]"] show ?thesis by simp
  next
    case False
    with assms have raw: "raw = Json j0" by auto
    obtain root h1 where b: "build [] j0 = (root, h1)" by (cases "build [] j0")
    from build_rep(1) [OF b] raw b that [of root h1] show ?thesis
      by (simp add: JSON_parse_def)
  qed
  obtain replacement h2 where br: "build_replacement R fm nodeData h1 = (replacement, h2)"
    by (cases "build_replacement R fm nodeData h1")
  then obtain cs2 where h2: "h2 = h1 @ cs2"
    by (auto simp add: build_replacement_def split: if_splits)
  from start(2) have r2: "rep h2 root (parsed j0)" unfolding h2 by (rule rep_extend(1))
  obtain newRoot h3 where b3: "build h2 (printed (parsed j0)) = (newRoot, h3)"
    by (cases "build h2 (printed (parsed j0))")
  from build_frame(1) [OF _ closed_above_top b3] obtain cs where h3: "h3 = h2 @ cs" by auto
  from build_rep(1) [OF b3] have r3: "rep (h2 @ cs) newRoot (parsed (printed (parsed j0)))" by (simp add: h3)
  have cl: "clone h2 root = (Inr newRoot, h2 @ cs)"
    using stringify_rep [OF r2] b3 h3 by (simp add: clone_def JSON_parse_def)
  have "persist R fm nodeData raw =
             (case setValueAtPath (h2 @ cs) newRoot (node_path nodeData) replacement of
                (Inl e, _) \<Rightarrow> Inl e
              | (Inr final, h4) \<Rightarrow>
                  (let toSave = (if node_path nodeData \<noteq> None \<and> node_path nodeData \<noteq> Some []
                                 then final else replacement)
                   in case JSON_stringify h4 toSave of
                        Inl e \<Rightarrow> Inl e
                      | Inr None \<Rightarrow> Inr Blank
                      | Inr (Some j) \<Rightarrow> Inr (Json j)))"
    unfolding persist_def start(1) by (simp add: br cl)
  with start(2) br b3 h3 r3 show ?thesis by blast
qed


text \<open>
  C6. With the empty path \<open>setValueAtPath\<close> returns the replacement itself, whatever
  the root (also when the path is \<open>undefined\<close>). A save of a node whose path is empty,
  on a document text that is empty or parses, writes as the new document the
  serialization of the replacement.
\<close>

theorem root_replacement:
  "setValueAtPath h root (Some []) replacement = (Inr replacement, h)
   \<and> setValueAtPath h root None replacement = (Inr replacement, h)
   \<and> (selectedNode (useGraph st) = Some nodeData
        \<and> (node_path nodeData = Some [] \<or> node_path nodeData = None)
        \<and> (useJson st = Blank \<or> useJson st = Json j) \<longrightarrow>
      (\<exists>J. JSON_stringify (snd (build_replacement R (form st) nodeData []))
                           (fst (build_replacement R (form st) nodeData [])) = Inr (Some J)
           \<and> useJson (handleSave R st) = Json J))"
proof (intro conjI impI)
  assume a: "selectedNode (useGraph st) = Some nodeData
        \<and> (node_path nodeData = Some [] \<or> node_path nodeData = None)
        \<and> (useJson st = Blank \<or> useJson st = Json j)"
  define j0 where "j0 = (if useJson st = Blank then JObj [] else j)"
  have "useJson st = Blank \<and> j0 = JObj [] \<or> useJson st = Json j0"
    using a by (auto simp add: j0_def)
  from persist_stages [OF this, of R "form st" nodeData]
  obtain root h1 replacement h2 newRoot cs where
    br: "build_replacement R (form st) nodeData h1 = (replacement, h2)" and
    p: "persist R (form st) nodeData (useJson st) =
             (case setValueAtPath (h2 @ cs) newRoot (node_path nodeData) replacement of
                (Inl e, _) \<Rightarrow> Inl e
              | (Inr final, h4) \<Rightarrow>
                  (let toSave = (if node_path nodeData \<noteq> None \<and> node_path nodeData \<noteq> Some []
                                 then final else replacement)
                   in case JSON_stringify h4 toSave of
                        Inl e \<Rightarrow> Inl e
                      | Inr None \<Rightarrow> Inr Blank
                      | Inr (Some j) \<Rightarrow> Inr (Json j)))"
    by blast
  from stringify_replacement [OF br, of cs]
  obtain J where J: "JSON_stringify (h2 @ cs) replacement = Inr (Some J)"
    "JSON_stringify (snd (build_replacement R (form st) nodeData []))
                    (fst (build_replacement R (form st) nodeData [])) = Inr (Some J)"
    by blast
  have "persist R (form st) nodeData (useJson st) = Inr (Json J)"
    using a J(1) unfolding p by (auto simp add: setValueAtPath_def)
  then have "useJson (handleSave R st) = Json J"
    using a by (simp add: handleSave_def update_store_def Let_def)
  with J(2) show "\<exists>J. JSON_stringify (snd (build_replacement R (form st) nodeData []))
                           (fst (build_replacement R (form st) nodeData [])) = Inr (Some J)
           \<and> useJson (handleSave R st) = Json J" by blast
qed (simp_all add: setValueAtPath_def)

lemma letter_not_number: "parsePrimitive table_runtime ''v'' = Str ''v''"
  by (simp add: parsePrimitive_def table_runtime_def isNaN_def)

lemma started_view_state:
  "start table_runtime view_state = view_state\<lparr>isEditing := True, form := [(''a'', ''v'')]\<rparr>"
  by (simp add: view_state_def sample_graph_def string_row_def start_def startEditing_def
        rerender_def effect_def editable_def truthy_key_def rec_set_def String_or_empty_def
        js_String_def)

theorem root_replacement_witness:
  "useJson (handleSave table_runtime (start table_runtime view_state)) = Json (JObj [(''a'', JStr ''v'')])"
  using root_replacement [of "[]" "Ref 0" "Ref 0" "start table_runtime view_state"
                             "\<lparr> node_text = [string_row (Some '''') ''u'', string_row (Some ''a'') ''v''],
                                node_path = Some [] \<rparr>"
                             "JObj [('''', JStr ''u''), (''a'', JStr ''v'')]" table_runtime]
  unfolding started_view_state
  by (simp add: view_state_def sample_graph_def build_replacement_def
        replacement_entries_def rec_set_def letter_not_number JSON_stringify_def members_def
        prim_json_def)

section \<open>Replacing a value by one that prints alike\<close>

lemma ser_veq: "veq h v v' \<Longrightarrow> ser f h v = ser f h v'"
  by (cases f) (auto simp add: veq_def split: jsval.splits)

lemma veq_refl [simp]: "veq h v v"
  by (simp add: veq_def)

lemma map_ser_veq:
  assumes "list_all2 (veq h) vs vs'" and "\<And>v. g' v = g v"
    and "\<And>v v'. veq h v v' \<Longrightarrow> g v = g v'"
  shows "map g' vs' = map g vs"
  using assms(1)
  by (induction rule: list_all2_induct) (auto simp add: assms(2) dest: assms(3))

lemma ser_update:
  assumes "a < length h" and "sim h (h ! a) c'"
  shows "ser f (h[a := c']) v = ser f h v"
proof (induction f arbitrary: v)
  case 0
  show ?case by (cases v) simp_all
next
  case (Suc f)
  have IH: "ser f (h[a := c']) = ser f h"
    by (rule ext) (rule Suc.IH)
  show ?case
  proof (cases v)
    case (Prim p)
    then show ?thesis by simp
  next
    case (Ref b)
    show ?thesis
    proof (cases "b = a")
      case False
      with Ref show ?thesis
        by (simp add: IH split: hobj.splits)
    next
      case True
      show ?thesis
      proof (cases "h ! a")
        case (Object ps)
        with assms(2) obtain ps' where c': "c' = Object ps'" "map fst ps = map fst ps'"
          "list_all2 (veq h) (map snd ps) (map snd ps')"
          by (auto simp add: sim_def split: hobj.splits)
        have "list_all2 (\<lambda>p p'. fst p = fst p' \<and> veq h (snd p) (snd p')) ps ps'"
          using c'(2,3)
          by (induction ps arbitrary: ps') (auto simp add: list_all2_Cons1 Cons_eq_map_conv)
        then have "map (\<lambda>(k, v). case ser f (h[a := c']) v of Inl e \<Rightarrow> Inl e | Inr r \<Rightarrow> Inr (k, r)) ps'
             = map (\<lambda>(k, v). case ser f h v of Inl e \<Rightarrow> Inl e | Inr r \<Rightarrow> Inr (k, r)) ps"
          by (induction rule: list_all2_induct)
             (auto simp add: IH split: prod.splits dest: ser_veq [where f = f])
        with Ref True Object c' assms(1) show ?thesis by simp
      next
        case (Array es ps)
        with assms(2) obtain es' ps' where c': "c' = Array es' ps'" "list_all2 (veq h) es es'"
          by (auto simp add: sim_def split: hobj.splits)
        from c'(2) have "map (ser f (h[a := c'])) es' = map (ser f h) es"
          by (induction rule: list_all2_induct) (auto simp add: IH dest: ser_veq [where f = f])
        with Ref True Array c' assms(1) show ?thesis by simp
      qed
    qed
  qed
qed


lemma rep_props_lookup:
  "rep_props h b ps ms \<Longrightarrow> map_of ms k = Some c \<Longrightarrow>
     \<exists>w. map_of ps k = Some w \<and> rep h w c"
proof (induction ms arbitrary: ps)
  case Nil
  then show ?case by simp
next
  case (Cons m ms)
  obtain k' x where m: "m = (k', x)" by (cases m)
  from Cons.prems(1) m obtain e ps' where ps: "ps = (k', e) # ps'" "rep h e x"
    "rep_props h b ps' ms"
    by (auto split: list.splits)
  show ?case
  proof (cases "k = k'")
    case True
    with Cons.prems(2) m ps show ?thesis by simp
  next
    case False
    with Cons.prems(2) m have "map_of ms k = Some c" by simp
    from Cons.IH [OF ps(3) this] False ps(1) show ?thesis by simp
  qed
qed

lemma rep_list_nth:
  "rep_list h b es xs \<Longrightarrow> i < length xs \<Longrightarrow> i < length es \<and> rep h (es ! i) (xs ! i)"
proof (induction xs arbitrary: es i)
  case Nil
  then show ?case by simp
next
  case (Cons x xs)
  from Cons.prems(1) obtain e es' where es: "es = e # es'" "rep h e x" "rep_list h b es' xs"
    by (auto split: list.splits)
  show ?case
  proof (cases i)
    case 0
    with es show ?thesis by simp
  next
    case (Suc i')
    with Cons.prems(2) have "i' < length xs" by simp
    from Cons.IH [OF es(3) this] Suc es(1) show ?thesis by simp
  qed
qed

text \<open>Reading a segment that the document has: the value read is the member.\<close>

lemma rep_lookup:
  assumes "rep h v j" and "lookup_seg j s = Some c"
  shows "\<exists>a w. v = Ref a \<and> a < length h \<and> js_get h v s = Inr w \<and> rep h w c
             \<and> (case s of Idx _ \<Rightarrow> Array_isArray h v | Key _ \<Rightarrow> True)"
proof (cases j)
  case (JArr xs)
  with assms(2) obtain i where s: "s = Idx i" "i < length xs" "i < 4294967295" "c = xs ! i"
    by (cases s) (auto split: if_splits)
  from assms(1) JArr obtain a es where v: "v = Ref a" "a < length h" "h ! a = Array es []"
    "rep_list h a es xs"
    by (auto split: jsval.splits hobj.splits)
  from rep_list_nth [OF v(4) s(2)] s v show ?thesis
    by (simp add: js_get_def Array_isArray_def)
next
  case (JObj ms)
  with assms(2) obtain k where s: "s = Key k" "map_of ms k = Some c"
    by (cases s) auto
  from assms(1) JObj obtain a ps where v: "v = Ref a" "a < length h" "h ! a = Object ps"
    "rep_props h a ps ms"
    by (auto split: jsval.splits hobj.splits)
  from rep_props_lookup [OF v(4) s(2)] s v show ?thesis
    by (auto simp add: js_get_def own_prop_def)
qed (use assms(2) in simp_all)

text \<open>
  On a path that the document has, the loop finds every container in place and writes
  nothing; all that remains of the call is the assignment at the last segment.
\<close>

lemma walk_resolved:
  assumes "rep h cur j" and "get_path j (ss @ [l]) = Some old"
  shows "\<exists>p pj. rep h p pj \<and> lookup_seg pj l = Some old
           \<and> walk h cur (ss @ [l]) replacement = walk h p [l] replacement"
  using assms
proof (induction ss arbitrary: cur j)
  case Nil
  then show ?case by (auto split: option.splits)
next
  case (Cons s ss)
  from Cons.prems(2) obtain c where c: "lookup_seg j s = Some c" "get_path c (ss @ [l]) = Some old"
    by (auto split: option.splits)
  from rep_lookup [OF Cons.prems(1) c(1)]
  obtain a w where w: "cur = Ref a" "js_get h cur s = Inr w" "rep h w c"
    "case s of Idx _ \<Rightarrow> Array_isArray h cur | Key _ \<Rightarrow> True"
    by blast
  obtain n r where nr: "ss @ [l] = n # r" by (cases "ss @ [l]") auto
  with c(2) obtain d where "lookup_seg c n = Some d" by (auto split: option.splits)
  from rep_lookup [OF w(3) this] obtain a' where "w = Ref a'" by blast
  then have obj: "\<not> nullish w" "typeof_object w"
    by (simp_all add: nullish_def typeof_object_def)
  have "walk h cur (s # n # r) replacement = walk h w (n # r) replacement"
    using w(2,4) obj by (cases s) simp_all
  moreover from Cons.IH [OF w(3) c(2)]
  obtain p pj where "rep h p pj" "lookup_seg pj l = Some old"
    "walk h w (ss @ [l]) replacement = walk h p [l] replacement" by blast
  ultimately show ?case using nr by auto
qed

lemma overwrite_sim:
  assumes "map_of ps k = Some w" and "veq h w x"
  shows "list_all2 (veq h) (map snd ps) (map snd (overwrite k x ps))"
  using assms(1)
proof (induction ps)
  case Nil
  then show ?case by simp
next
  case (Cons p ps)
  obtain k' v' where p: "p = (k', v')" by (cases p)
  show ?case
  proof (cases "k = k'")
    case True
    with Cons.prems p assms(2) show ?thesis by (simp add: list_all2_refl)
  next
    case False
    with Cons.prems p have "map_of ps k = Some w" by simp
    from Cons.IH [OF this] False p show ?thesis by simp
  qed
qed

lemma upd_sim:
  assumes "map_of ps k = Some w" and "veq h w x"
  shows "map fst ps = map fst (upd k x ps) \<and> list_all2 (veq h) (map snd ps) (map snd (upd k x ps))"
proof -
  from assms(1) have "k \<in> set (map fst ps)"
    by (force dest: map_of_SomeD)
  then have "upd k x ps = overwrite k x ps" by (simp add: upd_def)
  with overwrite_sim [OF assms] show ?thesis by (simp add: keys_overwrite)
qed

text \<open>The assignment at the last segment, of a value that prints like the one it replaces.\<close>

lemma set_resolved:
  assumes "rep h p pj" and "lookup_seg pj l = Some old"
    and "\<And>w. rep h w old \<Longrightarrow> veq h w x"
  shows "\<exists>a c'. a < length h \<and> sim h (h ! a) c' \<and> js_set h p l x = Inr (h[a := c'])"
proof -
  from rep_lookup [OF assms(1,2)]
  obtain a w where w: "p = Ref a" "a < length h" "js_get h p l = Inr w" "rep h w old" by blast
  from assms(3) [OF w(4)] have veq: "veq h w x" .
  show ?thesis
  proof (cases pj)
    case (JArr xs)
    with assms(2) obtain i where s: "l = Idx i" "i < length xs" "i < 4294967295"
      by (cases l) (auto split: if_splits)
    from assms(1) JArr w(1) obtain es where v: "h ! a = Array es []" "rep_list h a es xs"
      by (auto split: jsval.splits hobj.splits)
    from rep_list_nth [OF v(2) s(2)] have i: "i < length es" by simp
    with w(1,2,3) s v have "es ! i = w" by (simp add: js_get_def)
    with veq i have "list_all2 (veq h) es (es[i := x])"
      by (auto simp add: list_all2_conv_all_nth nth_list_update)
    then have "sim h (h ! a) (Array (es[i := x]) [])"
      by (simp add: sim_def v)
    moreover have "js_set h p l x = Inr (h[a := Array (es[i := x]) []])"
      using w(1,2) s v i by (simp add: js_set_def set_elem_def)
    ultimately show ?thesis using w(2) by blast
  next
    case (JObj ms)
    with assms(2) obtain k where s: "l = Key k" "map_of ms k = Some old"
      by (cases l) auto
    from assms(1) JObj w(1) obtain ps where v: "h ! a = Object ps" "rep_props h a ps ms"
      by (auto split: jsval.splits hobj.splits)
    from w(1,2,3) s v have "own_prop ps k = Inr w" by (simp add: js_get_def)
    moreover from rep_props_lookup [OF v(2) s(2)] obtain w' where w': "map_of ps k = Some w'"
      by blast
    ultimately have m: "map_of ps k = Some w" by (simp add: own_prop_def)
    from upd_sim [OF m veq] have "sim h (h ! a) (Object (upd k x ps))"
      by (simp add: sim_def v)
    moreover have "js_set h p l x = Inr (h[a := Object (upd k x ps)])"
      using w(1,2) s v m by (simp add: js_set_def put_prop_def)
    ultimately show ?thesis using w(2) by blast
  qed (use assms(2) in simp_all)
qed

text \<open>
  Installing, at a path that the document has, a value that prints like the one
  there: the call returns, and what is then saved prints as the document did.
\<close>

lemma install_same:
  assumes "rep h root j" and "get_path j path = Some old"
    and "\<And>w. rep h w old \<Longrightarrow> veq h w x"
  shows "\<exists>final h4. setValueAtPath h root (Some path) x = (Inr final, h4)
           \<and> JSON_stringify h4 (if path \<noteq> [] then final else x) = Inr (Some (printed j))"
proof (cases path rule: rev_cases)
  case Nil
  with assms(2) have "old = j" by simp
  with assms(1,3) have "veq h root x" by simp
  from ser_veq [OF this] stringify_rep [OF assms(1)] Nil show ?thesis
    by (simp add: setValueAtPath_def JSON_stringify_def)
next
  case (snoc ss l)
  from walk_resolved [OF assms(1) assms(2) [unfolded snoc]]
  obtain p pj where p: "rep h p pj" "lookup_seg pj l = Some old"
    "walk h root (ss @ [l]) x = walk h p [l] x" by blast
  from set_resolved [OF p(1,2) assms(3)]
  obtain a c' where s: "a < length h" "sim h (h ! a) c'" "js_set h p l x = Inr (h[a := c'])"
    by blast
  have w: "walk h root (ss @ [l]) x = (Inr (), h[a := c'])"
    using p(3) s(3) by simp
  obtain n r where nr: "ss @ [l] = n # r" by (cases "ss @ [l]") auto
  have "setValueAtPath h root (Some path) x = (Inr root, h[a := c'])"
    using w nr snoc by (simp add: setValueAtPath_def)
  moreover have "JSON_stringify (h[a := c']) root = Inr (Some (printed j))"
    using ser_update [OF s(1,2)] stringify_rep [OF assms(1)]
    by (simp add: JSON_stringify_def)
  ultimately show ?thesis using snoc by simp
qed

section \<open>The form and the replacement of rows that round-trip\<close>

lemma fold_rows_set:
  "set (foldl (\<lambda>acc r. upd (the (row_key r)) (row_value r) acc) acc rows)
     \<subseteq> set acc \<union> (\<lambda>r. (the (row_key r), row_value r)) ` set rows"
proof (induction rows arbitrary: acc)
  case Nil
  show ?case by simp
next
  case (Cons r rows)
  from Cons.IH [of "upd (the (row_key r)) (row_value r) acc"]
       set_upd [of "the (row_key r)" "row_value r" acc]
  show ?case by auto
qed

lemma fold_rows_enumerated:
  "enumerated acc \<Longrightarrow> enumerated (foldl (\<lambda>acc r. upd (the (row_key r)) (row_value r) acc) acc rows)"
  by (induction rows arbitrary: acc) (simp_all add: enumerated_upd)

lemma row_members_enumerated: "enumerated (row_members rows)"
  unfolding row_members_def by (rule fold_rows_enumerated) (simp add: enumerated_def)

lemma row_members_set:
  "m \<in> set (row_members rows) \<Longrightarrow> \<exists>r \<in> set rows. m = (the (row_key r), row_value r)"
  using fold_rows_set [of "[]" rows] by (auto simp add: row_members_def)

lemma fill_form:
  assumes "list_all (\<lambda>r. editable r \<and> row_key r \<noteq> Some ''__proto__'') rows"
  shows "foldl (\<lambda>values r. if editable r
                            then rec_set (the (row_key r)) (f (row_value r)) values
                            else values) (map (\<lambda>(k, p). (k, f p)) acc) rows
           = map (\<lambda>(k, p). (k, f p)) (foldl (\<lambda>acc r. upd (the (row_key r)) (row_value r) acc) acc rows)"
  using assms
proof (induction rows arbitrary: acc)
  case Nil
  then show ?case by simp
next
  case (Cons r rows)
  from Cons.prems obtain k where k: "row_key r = Some k" "k \<noteq> ''__proto__''" "editable r"
    by (auto simp add: editable_def truthy_key_def split: option.splits)
  have "rec_set k (f (row_value r)) (map (\<lambda>(k, p). (k, f p)) acc)
          = map (\<lambda>(k, p). (k, f p)) (upd k (row_value r) acc)"
    using k(2) by (simp add: rec_set_def upd_map)
  with Cons.IH [of "upd k (row_value r) acc"] Cons.prems k show ?case by simp
qed

lemma fill_entries:
  assumes "enumerated (acc @ kvs)" and "\<forall>kv \<in> set kvs. fst kv \<noteq> ''__proto__''"
  shows "foldl (\<lambda>obj (k, v). rec_set k (g v) obj) (map (\<lambda>(k, v). (k, g v)) acc) kvs
           = map (\<lambda>(k, v). (k, g v)) (acc @ kvs)"
  using assms
proof (induction kvs arbitrary: acc)
  case Nil
  then show ?case by simp
next
  case (Cons kv kvs)
  obtain k v where kv: "kv = (k, v)" by (cases kv)
  from Cons.prems(1) kv have e: "enumerated ((acc @ [(k, v)]) @ kvs)" by simp
  then have "enumerated (acc @ [(k, v)])"
    unfolding enumerated_def map_append sorted_wrt_append by blast
  then have "upd k v acc = acc @ [(k, v)]" by (rule upd_last)
  moreover from Cons.prems(2) kv have "k \<noteq> ''__proto__''" by simp
  ultimately have "rec_set k (g v) (map (\<lambda>(k, v). (k, g v)) acc)
          = map (\<lambda>(k, v). (k, g v)) (acc @ [(k, v)])"
    by (simp add: rec_set_def upd_map [symmetric] del: map_append)
  with Cons.IH [OF e] Cons.prems(2) kv show ?case by simp
qed

lemma rep_scalar: "rep h e x \<Longrightarrow> scalar_of x = Some p \<Longrightarrow> e = Prim p"
  by (cases x) auto

lemma rep_props_scalars:
  "rep_props h b ps ms \<Longrightarrow>
   map (\<lambda>(k, y). (k, scalar_of y)) ms = map (\<lambda>(k, p). (k, Some p)) C \<Longrightarrow>
     ps = map (\<lambda>(k, p). (k, Prim p)) C"
proof (induction ms arbitrary: ps C)
  case Nil
  then show ?case by simp
next
  case (Cons m ms)
  obtain k x where m: "m = (k, x)" by (cases m)
  from Cons.prems(1) m obtain e ps' where ps: "ps = (k, e) # ps'" "rep h e x"
    "rep_props h b ps' ms"
    by (auto split: list.splits)
  from Cons.prems(2) m obtain p C' where C: "C = (k, p) # C'" "scalar_of x = Some p"
    "map (\<lambda>(k, y). (k, scalar_of y)) ms = map (\<lambda>(k, p). (k, Some p)) C'"
    by (cases C) auto
  from rep_scalar [OF ps(2) C(2)] Cons.IH [OF ps(3) C(3)] ps(1) C(1)
  show ?case by simp
qed

lemma editable_single:
  assumes "list_all (\<lambda>r. editable r \<and> P r) rows" and "length rows = 1"
  shows "truthy_key (row_key (rows ! 0))" and "row_key (rows ! 0) \<noteq> None"
proof -
  from assms(2) have "rows ! 0 \<in> set rows" by (cases rows) auto
  with assms(1) have "editable (rows ! 0)" by (auto simp add: list_all_iff)
  then show "truthy_key (row_key (rows ! 0))" "row_key (rows ! 0) \<noteq> None"
    by (auto simp add: editable_def truthy_key_def split: option.splits)
qed

lemma started_form:
  assumes "selectedNode (useGraph st) = Some nodeData" and "\<not> isEditing st"
    and "round_trips R (node_text nodeData)"
  shows "form (start R st) = shown R (node_text nodeData)"
proof (cases "length (node_text nodeData) = 1 \<and> row_key (node_text nodeData ! 0) = None")
  case True
  with assms(1,2) show ?thesis
    by (simp add: start_def startEditing_def rerender_def effect_def shown_def truthy_key_def)
next
  case False
  with assms(3) have rows:
    "list_all (\<lambda>r. editable r \<and> row_key r \<noteq> Some ''__proto__'' \<and> stable R (row_value r))
              (node_text nodeData)"
    by (auto simp add: round_trips_def)
  have nb: "\<not> (length (node_text nodeData) = 1 \<and> \<not> truthy_key (row_key (node_text nodeData ! 0)))"
    using editable_single(1) [OF rows] by blast
  have "foldl (\<lambda>values r. if editable r
                            then rec_set (the (row_key r)) (String_or_empty R (row_value r)) values
                            else values) (map (\<lambda>(k, p). (k, String_or_empty R p)) []) (node_text nodeData)
          = map (\<lambda>(k, p). (k, String_or_empty R p)) (row_members (node_text nodeData))"
    unfolding row_members_def
    using rows by (intro fill_form [where f = "String_or_empty R"]) (simp add: list_all_iff)
  moreover have "shown R (node_text nodeData)
          = map (\<lambda>(k, p). (k, String_or_empty R p)) (row_members (node_text nodeData))"
    using False by (auto simp add: shown_def)
  moreover have "form (start R st)
          = foldl (\<lambda>values r. if editable r
                            then rec_set (the (row_key r)) (String_or_empty R (row_value r)) values
                            else values) [] (node_text nodeData)"
  proof (cases "length (node_text nodeData) = 1")
    case True
    with nb have "truthy_key (row_key (node_text nodeData ! 0))" by simp
    with assms(1,2) show ?thesis
      by (simp add: start_def startEditing_def rerender_def effect_def)
  next
    case False
    with assms(1,2) show ?thesis
      by (simp add: start_def startEditing_def rerender_def effect_def)
  qed
  ultimately show ?thesis by simp
qed

lemma started_rest:
  "selectedNode (useGraph (start R st)) = selectedNode (useGraph st)"
  "useJson (start R st) = useJson st"
  by (simp_all add: start_def startEditing_def rerender_def effect_def split: option.splits)

lemma saved_doc:
  assumes "selectedNode (useGraph st) = Some nodeData"
  shows "useJson (save R st)
           = (case persist R (form st) nodeData (useJson st) of Inl e \<Rightarrow> useJson st | Inr t \<Rightarrow> t)"
  using assms
  by (simp add: save_def handleSave_def rerender_def effect_def Let_def update_store_def
           split: option.splits sum.splits)

text \<open>For rows that round-trip, the replacement prints like the value the rows agree with.\<close>

lemma replacement_veq:
  assumes rt: "round_trips R (node_text nodeData)"
    and ag: "node_agrees (node_text nodeData) x"
    and br: "build_replacement R (shown R (node_text nodeData)) nodeData h1 = (replacement, h2)"
    and w: "rep (h2 @ cs) w x"
  shows "veq (h2 @ cs) w replacement"
proof (cases "length (node_text nodeData) = 1 \<and> row_key (node_text nodeData ! 0) = None")
  case True
  have st: "stable R (row_value (node_text nodeData ! 0))"
  proof (rule ccontr)
    assume "\<not> stable R (row_value (node_text nodeData ! 0))"
    with rt True have
      "list_all (\<lambda>r. editable r \<and> row_key r \<noteq> Some ''__proto__'' \<and> stable R (row_value r))
                (node_text nodeData)"
      by (auto simp add: round_trips_def)
    from editable_single(2) [OF this] True show False by simp
  qed
  from True br st have "replacement = Prim (row_value (node_text nodeData ! 0))"
    by (auto simp add: build_replacement_def shown_def stable_def)
  moreover from True ag have "scalar_of x = Some (row_value (node_text nodeData ! 0))"
    by (simp add: node_agrees_def)
  from rep_scalar [OF w this] have "w = Prim (row_value (node_text nodeData ! 0))" .
  ultimately show ?thesis by simp
next
  case False
  with rt have rows:
    "list_all (\<lambda>r. editable r \<and> row_key r \<noteq> Some ''__proto__'' \<and> stable R (row_value r))
              (node_text nodeData)"
    by (auto simp add: round_trips_def)
  let ?C = "row_members (node_text nodeData)"
  let ?fm = "map (\<lambda>(k, p). (k, String_or_empty R p)) ?C"
  have fm: "shown R (node_text nodeData) = ?fm"
    using False by (auto simp add: shown_def)
  have mem: "k \<noteq> ''__proto__'' \<and> parsePrimitive R (String_or_empty R p) = p"
    if "(k, p) \<in> set ?C" for k p
  proof -
    from row_members_set [OF that] obtain r where r: "r \<in> set (node_text nodeData)"
      "k = the (row_key r)" "p = row_value r" by auto
    with rows have "editable r" "row_key r \<noteq> Some ''__proto__''" "stable R (row_value r)"
      by (auto simp add: list_all_iff)
    with r show ?thesis
      by (auto simp add: editable_def truthy_key_def stable_def split: option.splits)
  qed
  have en: "enumerated ([] @ ?fm)"
    using row_members_enumerated [of "node_text nodeData"]
    unfolding enumerated_def append_Nil keys_map_values .
  have np: "\<forall>kv \<in> set ?fm. fst kv \<noteq> ''__proto__''"
    using mem by auto
  have "replacement_entries R ?fm
          = foldl (\<lambda>obj (k, v). rec_set k (parsePrimitive R v) obj)
                  (map (\<lambda>(k, v). (k, parsePrimitive R v)) []) ?fm"
    by (simp add: replacement_entries_def)
  also have "\<dots> = map (\<lambda>(k, v). (k, parsePrimitive R v)) ([] @ ?fm)"
    using en np by (rule fill_entries)
  also have "\<dots> = map (\<lambda>(k, p). (k, parsePrimitive R (String_or_empty R p))) ?C"
    by (simp add: comp_def case_prod_unfold)
  also have "\<dots> = ?C"
    using mem by (intro map_idI) auto
  finally have entries: "replacement_entries R ?fm = ?C" .
  from False br have r: "replacement = Ref (length h1)"
    "h2 = h1 @ [Object (map (\<lambda>(k, p). (k, Prim p)) ?C)]"
    by (auto simp add: build_replacement_def fm entries)
  from False ag obtain ms where x: "x = JObj ms"
    "map (\<lambda>(k, y). (k, scalar_of y)) ms = map (\<lambda>(k, p). (k, Some p)) ?C"
    by (auto simp add: node_agrees_def split: json.splits if_splits)
  from w x obtain c ps where c: "w = Ref c" "c < length (h2 @ cs)" "(h2 @ cs) ! c = Object ps"
    "rep_props (h2 @ cs) c ps ms"
    by (auto split: jsval.splits hobj.splits)
  from rep_props_scalars [OF c(4) x(2)] c r show ?thesis
    by (simp add: veq_def nth_append)
qed

lemma x_not_number: "parsePrimitive table_runtime ''x'' = Str ''x''"
  by (simp add: parsePrimitive_def table_runtime_def isNaN_def)

lemma y_not_number: "parsePrimitive table_runtime ''y'' = Str ''y''"
  by (simp add: parsePrimitive_def table_runtime_def isNaN_def)

lemma digits_number: "parsePrimitive table_runtime ''42'' = Num 0x4045000000000000"
  by (simp add: parsePrimitive_def table_runtime_def isNaN_def)

lemma forty_two_printed: "num_json 0x4045000000000000 = JNum 0x4045000000000000"
  by (simp add: num_json_def isFinite_def)

lemmas session_defs = start_def startEditing_def save_def handleSave_def rerender_def effect_def
  update_store_def updater_def newRows_def new_row_def editable_def truthy_key_def rec_set_def
  String_or_empty_def js_String_def sample_graph_def string_row_def

lemmas persist_defs = persist_def JSON_parse_def build_replacement_def replacement_entries_def
  clone_def JSON_stringify_def members_def elements_def prim_json_def setValueAtPath_def
  js_get_def js_set_def own_prop_def put_prop_def nullish_def typeof_object_def upd_def
  is_digit_def

text \<open>
  C3, as the spec states it, fails. On a node \<open>{"a": "x", "c": [null, null]}\<close> at
  the path \<open>["n"]\<close>, starting an edit and saving at once replaces the node by
  \<open>{"a": "x"}\<close>: the replacement is built from the form, which has no entry for the
  array row. On a node \<open>{"a": "42"}\<close> the same save turns the string \<open>"42"\<close> into
  the number \<open>42\<close>.
\<close>

theorem noop_save_counterexample:
  "useJson (save table_runtime (start table_runtime nested_state))
     = Json (JObj [(''n'', JObj [(''a'', JStr ''x'')])])
   \<and> useJson nested_state
     = Json (JObj [(''n'', JObj [(''a'', JStr ''x''), (''c'', JArr [JNull, JNull])])])
   \<and> useJson (save table_runtime (start table_runtime digits_state))
     = Json (JObj [(''n'', JObj [(''a'', JNum 0x4045000000000000)])])
   \<and> useJson digits_state = Json (JObj [(''n'', JObj [(''a'', JStr ''42'')])])"
  by (simp add: nested_state_def digits_state_def session_defs persist_defs x_not_number
        digits_number forty_two_printed Let_def)

text \<open>
  C3, amended. Let the rows of the selected node round-trip: a single keyless row, or
  rows that are all scalar rows with non-empty keys other than \<open>__proto__\<close>, and in
  either case every value one that \<open>parsePrimitive\<close> gives back from the text the
  form shows for it. Let the document text be JSON whose numbers are all printed as
  they are (no number literal out of range, no negative zero), and let the value it
  is parsed to have, at the node's path, a value that agrees with the rows. Then
  starting an edit and saving at once stores a text that parses to the same JSON
  value as the text before: the stored text is the value the old text parses to,
  printed.
\<close>

theorem noop_save:
  assumes nd: "selectedNode (useGraph st) = Some nodeData"
    and view: "\<not> isEditing st"
    and doc: "useJson st = Json j" "printed j = j"
    and at: "get_path (parsed j) (path_of nodeData) = Some x" "node_agrees (node_text nodeData) x"
    and rt: "round_trips R (node_text nodeData)"
  shows "useJson (save R (start R st)) = Json (parsed j) \<and> parsed (parsed j) = parsed j"
proof -
  let ?fm = "shown R (node_text nodeData)"
  have fixed: "printed (parsed j) = parsed j" "parsed (parsed j) = parsed j"
    using doc(2) by (simp_all add: printed_fixed parsed_fixed(1))
  from persist_stages [of "Json j" j R ?fm nodeData]
  obtain root h1 replacement h2 newRoot cs where
    br: "build_replacement R ?fm nodeData h1 = (replacement, h2)" and
    r3: "rep (h2 @ cs) newRoot (parsed (printed (parsed j)))" and
    p: "persist R ?fm nodeData (Json j) =
             (case setValueAtPath (h2 @ cs) newRoot (node_path nodeData) replacement of
                (Inl e, _) \<Rightarrow> Inl e
              | (Inr final, h4) \<Rightarrow>
                  (let toSave = (if node_path nodeData \<noteq> None \<and> node_path nodeData \<noteq> Some []
                                 then final else replacement)
                   in case JSON_stringify h4 toSave of
                        Inl e \<Rightarrow> Inl e
                      | Inr None \<Rightarrow> Inr Blank
                      | Inr (Some j) \<Rightarrow> Inr (Json j)))"
    by blast
  from r3 fixed have r3': "rep (h2 @ cs) newRoot (parsed j)" by simp
  from install_same [OF r3' at(1), of replacement] replacement_veq [OF rt at(2) br]
  obtain final h4 where i:
    "setValueAtPath (h2 @ cs) newRoot (Some (path_of nodeData)) replacement = (Inr final, h4)"
    "JSON_stringify h4 (if path_of nodeData \<noteq> [] then final else replacement)
       = Inr (Some (printed (parsed j)))"
    by blast
  have same: "setValueAtPath (h2 @ cs) newRoot (node_path nodeData) replacement
                = setValueAtPath (h2 @ cs) newRoot (Some (path_of nodeData)) replacement"
    by (cases "node_path nodeData") (simp_all add: path_of_def setValueAtPath_def)
  have cond: "(node_path nodeData \<noteq> None \<and> node_path nodeData \<noteq> Some []) = (path_of nodeData \<noteq> [])"
    by (cases "node_path nodeData") (simp_all add: path_of_def)
  have "persist R ?fm nodeData (Json j) = Inr (Json (parsed j))"
  proof (cases "path_of nodeData = []")
    case True
    with i(2) fixed(1) have "JSON_stringify h4 replacement = Inr (Some (parsed j))" by simp
    with True show ?thesis unfolding p same i(1) cond by simp
  next
    case False
    with i(2) fixed(1) have "JSON_stringify h4 final = Inr (Some (parsed j))" by simp
    with False show ?thesis unfolding p same i(1) cond by simp
  qed
  moreover have "form (start R st) = ?fm"
    using started_form [OF nd view rt] .
  ultimately have "useJson (save R (start R st)) = Json (parsed j)"
    using saved_doc [of "start R st" nodeData R] nd doc(1)
    by (simp add: started_rest)
  with fixed(2) show ?thesis by simp
qed

theorem noop_save_witness:
  "useJson indexed_state = Json (JObj [(''n'', JObj [(''b'', JStr ''x''), (''1'', JStr ''y'')])])
   \<and> useJson (save table_runtime (start table_runtime indexed_state))
     = Json (JObj [(''n'', JObj [(''1'', JStr ''y''), (''b'', JStr ''x'')])])
   \<and> parsed (JObj [(''n'', JObj [(''b'', JStr ''x''), (''1'', JStr ''y'')])])
     = JObj [(''n'', JObj [(''1'', JStr ''y''), (''b'', JStr ''x'')])]
   \<and> parsed (JObj [(''n'', JObj [(''1'', JStr ''y''), (''b'', JStr ''x'')])])
     = JObj [(''n'', JObj [(''1'', JStr ''y''), (''b'', JStr ''x'')])]"
  using noop_save [of indexed_state
                      "\<lparr> node_text = [string_row (Some ''b'') ''x'', string_row (Some ''1'') ''y''],
                         node_path = Some [Key ''n''] \<rparr>"
                      "JObj [(''n'', JObj [(''b'', JStr ''x''), (''1'', JStr ''y'')])]"
                      "JObj [(''1'', JStr ''y''), (''b'', JStr ''x'')]"
                      table_runtime]
  by (simp add: indexed_state_def sample_graph_def string_row_def path_of_def node_agrees_def
        row_members_def round_trips_def stable_def editable_def truthy_key_def String_or_empty_def
        js_String_def x_not_number y_not_number index_first num_json_def)

end
